theory Spec2Isabelle
  imports Main "HOL-Library.Word"
begin

section \<open>The counting semaphore (PACC/Threading/Semaphore.cpp)\<close>

text \<open>
  A \<open>Semaphore\<close> derives from \<open>Condition\<close>, which derives from \<open>Mutex\<close>; neither base
  class is part of the sources at hand, so the calls the semaphore makes on them
  (\<open>lock()\<close>, \<open>unlock()\<close>, \<open>Condition::signal()\<close>, \<open>Condition::wait(inMaxTime)\<close>) are
  recorded, in program order, in a log carried by the state.
\<close>

datatype prim = MutexLock | MutexUnlock | CondSignal | CondWait

text \<open>
  Modelled from the spec: the declarations of \<open>mCount\<close> and \<open>mWaiters\<close> (Semaphore.hpp) are
  missing. The spec calls both fields integers, and the code and its comments allow for
  a negative count, so both are C++ \<open>int\<close>s: words of 32 bits, read as signed numbers
  (\<open>sint\<close>) where the code compares them, with an addition or subtraction that leaves
  the range wrapping around.
\<close>

type_synonym cxx_int = "32 word"

record semaphore =
  mCount :: cxx_int
  mWaiters :: cxx_int
  calls :: "prim list"

text \<open>The largest value of an \<open>int\<close>.\<close>

definition INT_MAX :: int where
  "INT_MAX = 2147483647"

definition sem_call :: "prim \<Rightarrow> semaphore \<Rightarrow> semaphore" where
  "sem_call p s = s\<lparr>calls := calls s @ [p]\<rparr>"

text \<open>\<open>void Semaphore::post(bool inLock)\<close>, lines 65-75.\<close>

definition post :: "bool \<Rightarrow> semaphore \<Rightarrow> semaphore" where
  "post inLock s =
     (let s1 = (if inLock then sem_call MutexLock s else s);
          s2 = s1\<lparr>mCount := mCount s1 + 1\<rparr>;
          s3 = (if sint (mWaiters s2) > 0 then sem_call CondSignal s2 else s2)
      in (if inLock then sem_call MutexUnlock s3 else s3))"

text \<open>\<open>bool Semaphore::tryWait(bool inLock)\<close>, lines 82-94.\<close>

definition tryWait :: "bool \<Rightarrow> semaphore \<Rightarrow> bool \<times> semaphore" where
  "tryWait inLock s =
     (let s1 = (if inLock then sem_call MutexLock s else s);
          lReturn = (if sint (mCount s1) \<le> 0 then False else True);
          s2 = (if lReturn then s1\<lparr>mCount := mCount s1 - 1\<rparr> else s1);
          s3 = (if inLock then sem_call MutexUnlock s2 else s2)
      in (lReturn, s3))"

text \<open>
  \<open>Condition::wait\<close> releases the mutex while the caller is blocked and takes it again
  before it returns. What one call of it does is therefore an input of the model: the
  value it returns (\<open>False\<close> for a time-out), and the net change that the other threads
  made to \<open>mCount\<close> and \<open>mWaiters\<close> while the mutex was free. The argument \<open>inMaxTime\<close> is
  only handed on to \<open>Condition::wait\<close>, so it does not appear.
\<close>

record wake =
  signalled :: bool
  dCount :: cxx_int
  dWaiters :: cxx_int

definition cond_wait :: "wake \<Rightarrow> semaphore \<Rightarrow> semaphore" where
  "cond_wait w s =
     (sem_call CondWait s)\<lparr>mCount := mCount s + dCount w, mWaiters := mWaiters s + dWaiters w\<rparr>"

text \<open>
  The loop of line 113, \<open>while(mCount <= 0 && lReturn) lReturn = Condition::wait(inMaxTime)\<close>.
  A thread that is never woken again never returns: that is the value \<open>None\<close>.
\<close>

fun wait_loop :: "bool \<Rightarrow> semaphore \<Rightarrow> wake list \<Rightarrow> (bool \<times> semaphore) option" where
  "wait_loop lReturn s [] =
     (if sint (mCount s) \<le> 0 \<and> lReturn then None else Some (lReturn, s))"
| "wait_loop lReturn s (w # ws) =
     (if sint (mCount s) \<le> 0 \<and> lReturn then wait_loop (signalled w) (cond_wait w s) ws
      else Some (lReturn, s))"

text \<open>Lines 109-111: take the mutex, count the caller among the waiters.\<close>

definition wait_enter :: "bool \<Rightarrow> semaphore \<Rightarrow> semaphore" where
  "wait_enter inLock s =
     (let s1 = (if inLock then sem_call MutexLock s else s)
      in s1\<lparr>mWaiters := mWaiters s1 + 1\<rparr>)"

text \<open>Lines 115-120: what follows the loop.\<close>

definition wait_exit :: "bool \<Rightarrow> bool \<Rightarrow> semaphore \<Rightarrow> bool \<times> semaphore" where
  "wait_exit inLock lReturn s =
     (let s1 = (if lReturn then s\<lparr>mCount := mCount s - 1\<rparr> else s);
          s2 = s1\<lparr>mWaiters := mWaiters s1 - 1\<rparr>;
          s3 = (if inLock then sem_call MutexUnlock s2 else s2)
      in (lReturn, s3))"

text \<open>\<open>bool Semaphore::wait(double inMaxTime, bool inLock)\<close>, lines 105-121.\<close>

definition wait :: "wake list \<Rightarrow> bool \<Rightarrow> semaphore \<Rightarrow> (bool \<times> semaphore) option" where
  "wait ws inLock s =
     (case wait_loop True (wait_enter inLock s) ws of
        None \<Rightarrow> None
      | Some (lReturn, s') \<Rightarrow> Some (wait_exit inLock lReturn s'))"

text \<open>The number of \<open>Condition::wait\<close> calls in a log.\<close>

definition cond_waits :: "prim list \<Rightarrow> nat" where
  "cond_waits ps = length (filter (\<lambda>p. p = CondWait) ps)"

text \<open>
  Modelled from the spec: the constructor (Semaphore.hpp) is missing; it sets the count
  to its argument and starts with no waiter.
\<close>

definition Semaphore :: "cxx_int \<Rightarrow> semaphore" where
  "Semaphore inCount = \<lparr>mCount = inCount, mWaiters = 0, calls = []\<rparr>"

subsection \<open>Several threads on one semaphore\<close>

text \<open>
  The mutex makes every stretch of an operation between two points where the caller is
  blocked in \<open>Condition::wait\<close> exclusive. A step of the system below is one such stretch:
  a whole \<open>post\<close>, a whole \<open>tryWait\<close>, a \<open>wait\<close> from its entry to its return or to its
  first \<open>Condition::wait\<close>, and a \<open>wait\<close> from a wake-up (with the value that
  \<open>Condition::wait\<close> returns) to its return or to the next \<open>Condition::wait\<close>. The threads
  are numbered; \<open>blocked\<close> lists the threads inside \<open>Condition::wait\<close>, and \<open>returned\<close> the
  operations that have returned, with their results, in the order of their returns.
\<close>

datatype sem_op = Post nat | TryWait nat | WaitCall nat | WaitWake nat bool

datatype sem_ret = Posted | TryWaitRet bool | WaitRet bool

record sem_sys =
  sem :: semaphore
  blocked :: "nat list"
  returned :: "sem_ret list"

text \<open>
  The test of the loop of line 113, made by thread \<open>th\<close> holding the mutex with the current
  value of \<open>lReturn\<close>: either the thread calls \<open>Condition::wait\<close> (again), or it leaves the
  loop and returns through lines 115-120.
\<close>

definition wait_resume :: "nat \<Rightarrow> bool \<Rightarrow> sem_sys \<Rightarrow> sem_sys" where
  "wait_resume th lReturn \<sigma> =
     (if sint (mCount (sem \<sigma>)) \<le> 0 \<and> lReturn
      then \<sigma>\<lparr>sem := sem_call CondWait (sem \<sigma>), blocked := th # blocked \<sigma>\<rparr>
      else (case wait_exit True lReturn (sem \<sigma>) of
              (r, s') \<Rightarrow> \<sigma>\<lparr>sem := s', returned := returned \<sigma> @ [WaitRet r]\<rparr>))"

fun sem_step :: "sem_op \<Rightarrow> sem_sys \<Rightarrow> sem_sys option" where
  "sem_step (Post th) \<sigma> =
     (if th \<in> set (blocked \<sigma>) then None
      else Some (\<sigma>\<lparr>sem := post True (sem \<sigma>), returned := returned \<sigma> @ [Posted]\<rparr>))"
| "sem_step (TryWait th) \<sigma> =
     (if th \<in> set (blocked \<sigma>) then None
      else (case tryWait True (sem \<sigma>) of
              (r, s') \<Rightarrow> Some (\<sigma>\<lparr>sem := s', returned := returned \<sigma> @ [TryWaitRet r]\<rparr>)))"
| "sem_step (WaitCall th) \<sigma> =
     (if th \<in> set (blocked \<sigma>) then None
      else Some (wait_resume th True (\<sigma>\<lparr>sem := wait_enter True (sem \<sigma>)\<rparr>)))"
| "sem_step (WaitWake th b) \<sigma> =
     (if th \<in> set (blocked \<sigma>)
      then Some (wait_resume th b (\<sigma>\<lparr>blocked := remove1 th (blocked \<sigma>)\<rparr>))
      else None)"

fun sem_run :: "sem_op list \<Rightarrow> sem_sys \<Rightarrow> sem_sys option" where
  "sem_run [] \<sigma> = Some \<sigma>"
| "sem_run (x # xs) \<sigma> = (case sem_step x \<sigma> of None \<Rightarrow> None | Some \<sigma>' \<Rightarrow> sem_run xs \<sigma>')"

definition sem_start :: "cxx_int \<Rightarrow> sem_sys" where
  "sem_start inCount = \<lparr>sem = Semaphore inCount, blocked = [], returned = []\<rparr>"

text \<open>The posts that have returned.\<close>

definition posts :: "sem_ret list \<Rightarrow> nat" where
  "posts rs = length (filter (\<lambda>r. r = Posted) rs)"

text \<open>The acquisitions that succeeded: by \<open>tryWait\<close>, by \<open>wait\<close>, and both together.\<close>

definition successful_tries :: "sem_ret list \<Rightarrow> nat" where
  "successful_tries rs = length (filter (\<lambda>r. r = TryWaitRet True) rs)"

definition successful_waits :: "sem_ret list \<Rightarrow> nat" where
  "successful_waits rs = length (filter (\<lambda>r. r = WaitRet True) rs)"

definition acquisitions :: "sem_ret list \<Rightarrow> nat" where
  "acquisitions rs = successful_tries rs + successful_waits rs"

text \<open>A wake-up during which no other thread touched the semaphore.\<close>

definition quiet :: "bool \<Rightarrow> wake" where
  "quiet b = \<lparr>signalled = b, dCount = 0, dWaiters = 0\<rparr>"

section \<open>The thread pool (PACC/Threading/ThreadPool.cpp)\<close>

subsection \<open>Tasks, slaves and the pool\<close>

text \<open>
  The queue \<open>mTasks\<close> holds pointers to tasks that belong to the callers, so the tasks live
  in a store of their own, indexed by their addresses, and the queue is a list of
  addresses.
\<close>

type_synonym task_ptr = nat

record task =
  mRunning :: bool
  mCompleted :: bool

text \<open>
  Modelled from the spec: \<open>Task::reset()\<close> (Task.hpp is missing), which the spec describes
  as clearing \<open>running\<close> and \<open>completed\<close>.
\<close>

definition reset :: "task \<Rightarrow> task" where
  "reset k = k\<lparr>mRunning := False, mCompleted := False\<rparr>"

text \<open>
  The pool and every task are \<open>Condition\<close> objects (a mutex with a condition variable).
  \<open>Condition\<close> and \<open>Mutex\<close> are not among the sources: as for the semaphore, the calls made
  on them are recorded in program order, together with the writes and the queue
  operations they protect, each tagged with the thread that makes it. \<open>Wait\<close> is the
  entry into \<open>Condition::wait\<close>, which releases the mutex; \<open>Woken\<close> is its return, with the
  mutex held again.
\<close>

datatype object = PoolObj | TaskObj task_ptr

datatype thread = Producer | Slave nat | Owner

datatype action =
    Lock object | Unlock object | Wait object | Woken object
  | Signal object | Broadcast object
  | Reset task_ptr | Enqueue task_ptr | Dequeue task_ptr
  | SetRunning task_ptr bool | SetCompleted task_ptr bool
  | Main task_ptr | Cancel nat | Delete nat

text \<open>
  \<open>Task::main()\<close> is the caller's code: it returns, or a failure leaves it (a C++
  exception; \<open>SlaveThread::main\<close> has no handler).
\<close>

datatype outcome = Returns | Raises

text \<open>
  Where a slave thread stands between two steps: at the test of the outer loop (line 67),
  before \<open>mPool->lock()\<close> (line 70), inside \<open>mPool->wait()\<close> (line 71), with a dequeued task
  before line 79, inside \<open>lTask->main()\<close> (line 84), after it before line 86, past the
  outer loop (the thread has ended), or ended by a failure that left \<open>lTask->main()\<close>.
\<close>

datatype slave_pc =
    Testing | Locking | PoolWaiting
  | Dequeued task_ptr | Executing task_ptr | Returned task_ptr
  | Exited | Died

record slave =
  mCancel :: bool
  pc :: slave_pc

text \<open>
  The thread that owns the pool: it has not called the destructor, it is inside
  \<open>lTask->wait(false)\<close> (line 118), or it is deleting the slaves (line 128) and the next
  one to delete is number \<open>k\<close>.
\<close>

datatype owner_pc = Alive | Draining task_ptr | Deleting nat

text \<open>
  \<open>resetting\<close> lists the \<open>push\<close> calls that have reset their task (line 138) and not yet
  taken the pool lock (line 140).
\<close>

record pool =
  mTasks :: "task_ptr list"
  slaves :: "slave list"
  heap :: "task_ptr \<Rightarrow> task"
  resetting :: "task_ptr list"
  owner :: owner_pc
  trace :: "(thread \<times> action) list"

subsection \<open>The statements\<close>

definition emit :: "thread \<Rightarrow> action list \<Rightarrow> pool \<Rightarrow> pool" where
  "emit th as s = s\<lparr>trace := trace s @ map (Pair th) as\<rparr>"

definition lock :: "thread \<Rightarrow> object \<Rightarrow> pool \<Rightarrow> pool" where
  "lock th ob = emit th [Lock ob]"

definition unlock :: "thread \<Rightarrow> object \<Rightarrow> pool \<Rightarrow> pool" where
  "unlock th ob = emit th [Unlock ob]"

definition wait_on :: "thread \<Rightarrow> object \<Rightarrow> pool \<Rightarrow> pool" where
  "wait_on th ob = emit th [Wait ob]"

definition woken :: "thread \<Rightarrow> object \<Rightarrow> pool \<Rightarrow> pool" where
  "woken th ob = emit th [Woken ob]"

definition signal :: "thread \<Rightarrow> object \<Rightarrow> pool \<Rightarrow> pool" where
  "signal th ob = emit th [Signal ob]"

definition broadcast :: "thread \<Rightarrow> object \<Rightarrow> pool \<Rightarrow> pool" where
  "broadcast th ob = emit th [Broadcast ob]"

definition set_running :: "thread \<Rightarrow> task_ptr \<Rightarrow> bool \<Rightarrow> pool \<Rightarrow> pool" where
  "set_running th t b s =
     emit th [SetRunning t b] (s\<lparr>heap := (heap s)(t := (heap s t)\<lparr>mRunning := b\<rparr>)\<rparr>)"

definition set_completed :: "thread \<Rightarrow> task_ptr \<Rightarrow> bool \<Rightarrow> pool \<Rightarrow> pool" where
  "set_completed th t b s =
     emit th [SetCompleted t b] (s\<lparr>heap := (heap s)(t := (heap s t)\<lparr>mCompleted := b\<rparr>)\<rparr>)"

definition reset_task :: "thread \<Rightarrow> task_ptr \<Rightarrow> pool \<Rightarrow> pool" where
  "reset_task th t s = emit th [Reset t] (s\<lparr>heap := (heap s)(t := reset (heap s t))\<rparr>)"

text \<open>\<open>mTasks.push(&inTask)\<close>: the queue grows at its tail.\<close>

definition queue_push :: "thread \<Rightarrow> task_ptr \<Rightarrow> pool \<Rightarrow> pool" where
  "queue_push th t s = emit th [Enqueue t] (s\<lparr>mTasks := mTasks s @ [t]\<rparr>)"

text \<open>
  \<open>mTasks.front()\<close> followed by \<open>mTasks.pop()\<close>, lines 75-76; it is only reached with a
  queue that is not empty.
\<close>

definition queue_pop :: "thread \<Rightarrow> pool \<Rightarrow> pool" where
  "queue_pop th s = emit th [Dequeue (hd (mTasks s))] (s\<lparr>mTasks := tl (mTasks s)\<rparr>)"

definition set_pc :: "nat \<Rightarrow> slave_pc \<Rightarrow> pool \<Rightarrow> pool" where
  "set_pc i p s = s\<lparr>slaves := (slaves s)[i := (slaves s ! i)\<lparr>pc := p\<rparr>]\<rparr>"

definition set_owner :: "owner_pc \<Rightarrow> pool \<Rightarrow> pool" where
  "set_owner p s = s\<lparr>owner := p\<rparr>"

text \<open>Statements in sequence, the first of the list first.\<close>

definition seq :: "('s \<Rightarrow> 's) list \<Rightarrow> 's \<Rightarrow> 's" where
  "seq fs s = fold (\<lambda>f. f) fs s"

subsection \<open>\<open>ThreadPool::push\<close>, lines 135-144\<close>

text \<open>Line 138, outside every lock.\<close>

definition push_reset :: "task_ptr \<Rightarrow> pool \<Rightarrow> pool" where
  "push_reset t s = (reset_task Producer t s)\<lparr>resetting := t # resetting s\<rparr>"

text \<open>Lines 140-143, under the pool lock.\<close>

definition push_enqueue :: "task_ptr \<Rightarrow> pool \<Rightarrow> pool" where
  "push_enqueue t s =
     seq [lock Producer PoolObj,
          queue_push Producer t,
          signal Producer PoolObj,
          unlock Producer PoolObj]
       (s\<lparr>resetting := remove1 t (resetting s)\<rparr>)"

text \<open>The whole of \<open>push\<close>, when no other thread moves between its two parts.\<close>

definition push :: "task_ptr \<Rightarrow> pool \<Rightarrow> pool" where
  "push inTask = seq [push_reset inTask, push_enqueue inTask]"

subsection \<open>\<open>SlaveThread::main\<close>, lines 65-94\<close>

text \<open>Line 67: the test of the outer loop, which reads \<open>mCancel\<close> without a lock.\<close>

definition slave_test :: "nat \<Rightarrow> pool \<Rightarrow> pool" where
  "slave_test i s = (if \<not> mCancel (slaves s ! i) then set_pc i Locking s else set_pc i Exited s)"

text \<open>
  Lines 71-77 and 92, run with the pool lock held: the test of the inner loop, which
  sends the slave into \<open>mPool->wait()\<close>, and after the loop the two branches of line 72.
\<close>

definition take_or_wait :: "nat \<Rightarrow> pool \<Rightarrow> pool" where
  "take_or_wait i s =
     (if mTasks s = [] \<and> \<not> mCancel (slaves s ! i)
      then seq [wait_on (Slave i) PoolObj, set_pc i PoolWaiting] s
      else if \<not> mCancel (slaves s ! i)
      then seq [queue_pop (Slave i),
                unlock (Slave i) PoolObj,
                set_pc i (Dequeued (hd (mTasks s)))] s
      else seq [unlock (Slave i) PoolObj, set_pc i Testing] s)"

text \<open>Lines 79-82.\<close>

definition slave_start :: "nat \<Rightarrow> task_ptr \<Rightarrow> pool \<Rightarrow> pool" where
  "slave_start i lTask =
     seq [lock (Slave i) (TaskObj lTask),
          set_running (Slave i) lTask True,
          broadcast (Slave i) (TaskObj lTask),
          unlock (Slave i) (TaskObj lTask),
          set_pc i (Executing lTask)]"

text \<open>
  Line 84. Nothing catches a failure that leaves \<open>lTask->main()\<close>: it leaves
  \<open>SlaveThread::main\<close> too, and lines 86-90 are not run.
\<close>

definition slave_main :: "nat \<Rightarrow> task_ptr \<Rightarrow> outcome \<Rightarrow> pool \<Rightarrow> pool" where
  "slave_main i lTask out =
     seq [emit (Slave i) [Main lTask],
          set_pc i (case out of Returns \<Rightarrow> Returned lTask | Raises \<Rightarrow> Died)]"

text \<open>Lines 86-90, and back to the test of the outer loop.\<close>

definition slave_finish :: "nat \<Rightarrow> task_ptr \<Rightarrow> pool \<Rightarrow> pool" where
  "slave_finish i lTask =
     seq [lock (Slave i) (TaskObj lTask),
          set_running (Slave i) lTask False,
          set_completed (Slave i) lTask True,
          broadcast (Slave i) (TaskObj lTask),
          unlock (Slave i) (TaskObj lTask),
          set_pc i Testing]"

subsection \<open>The constructor and the destructor, lines 97-129\<close>

text \<open>
  Lines 100-104 allocate \<open>inSlaves\<close> slave threads. Modelled from the spec: the constructor
  of \<open>SlaveThread\<close> (ThreadPool.hpp is missing) starts the thread, with \<open>cancel\<close> initially
  false. The store \<open>h\<close> holds the callers' tasks.
\<close>

definition ThreadPool :: "nat \<Rightarrow> (task_ptr \<Rightarrow> task) \<Rightarrow> pool" where
  "ThreadPool inSlaves h =
     \<lparr>mTasks = [], slaves = replicate inSlaves \<lparr>mCancel = False, pc = Testing\<rparr>,
      heap = h, resetting = [], owner = Alive, trace = []\<rparr>"

text \<open>
  Line 123. Modelled from the spec: \<open>cancel()\<close> (Thread.hpp is missing) marks the thread
  cancelled.
\<close>

definition cancel_all :: "pool \<Rightarrow> pool" where
  "cancel_all s =
     emit Owner (map Cancel [0..<length (slaves s)])
       (s\<lparr>slaves := map (\<lambda>sl. sl\<lparr>mCancel := True\<rparr>) (slaves s)\<rparr>)"

text \<open>
  Lines 112-126, run with the pool lock held: the test of the loop, which sends the owner
  into \<open>lTask->wait(false)\<close> for the last task of the queue, and after the loop the
  cancellation. Modelled from the spec: \<open>Task::wait\<close> (Task.hpp is missing) is a blocking
  wait on the task's condition, without a time-out.
\<close>

definition drain :: "pool \<Rightarrow> pool" where
  "drain s =
     (if mTasks s \<noteq> []
      then seq [lock Owner (TaskObj (last (mTasks s))),
                unlock Owner PoolObj,
                wait_on Owner (TaskObj (last (mTasks s))),
                set_owner (Draining (last (mTasks s)))] s
      else seq [cancel_all,
                broadcast Owner PoolObj,
                unlock Owner PoolObj,
                set_owner (Deleting 0)] s)"

text \<open>Line 110 and the first test of the loop.\<close>

definition owner_begin :: "pool \<Rightarrow> pool" where
  "owner_begin = seq [lock Owner PoolObj, drain]"

text \<open>Lines 118-120, from the return of \<open>lTask->wait(false)\<close>, and the next test of the loop.\<close>

definition owner_wake :: "task_ptr \<Rightarrow> pool \<Rightarrow> pool" where
  "owner_wake lTask =
     seq [woken Owner (TaskObj lTask),
          unlock Owner (TaskObj lTask),
          lock Owner PoolObj,
          drain]"

text \<open>
  Line 128, one slave at a time. Modelled from the spec: the destructor of a slave thread
  (Thread.cpp is missing) blocks until the thread has ended, as the comment of line 127
  says too.
\<close>

definition ended :: "slave \<Rightarrow> bool" where
  "ended sl = (pc sl = Exited \<or> pc sl = Died)"

definition owner_delete :: "nat \<Rightarrow> pool \<Rightarrow> pool" where
  "owner_delete k = seq [emit Owner [Delete k], set_owner (Deleting (Suc k))]"

definition destroyed :: "pool \<Rightarrow> bool" where
  "destroyed s = (owner s = Deleting (length (slaves s)))"

subsection \<open>The threads together\<close>

text \<open>
  A step is a stretch of one thread from one point where it can be blocked, or where it
  holds no lock, to the next; the mutexes make the stretches under a lock exclusive. A
  step that is not possible in a state has no result. A slave inside \<open>mPool->wait()\<close>
  and the owner inside \<open>lTask->wait(false)\<close> may be woken at any time, which covers a
  signal, a broadcast and a spurious wake-up.
\<close>

datatype move =
    PushReset task_ptr | PushEnqueue task_ptr
  | SlaveTest nat | SlaveLock nat | SlaveWake nat
  | SlaveStart nat | SlaveMain nat outcome | SlaveFinish nat
  | OwnerBegin | OwnerWake | OwnerDelete

fun step :: "move \<Rightarrow> pool \<Rightarrow> pool option" where
  "step (PushReset t) s = Some (push_reset t s)"
| "step (PushEnqueue t) s =
     (if t \<in> set (resetting s) then Some (push_enqueue t s) else None)"
| "step (SlaveTest i) s =
     (if i < length (slaves s) \<and> pc (slaves s ! i) = Testing
      then Some (slave_test i s) else None)"
| "step (SlaveLock i) s =
     (if i < length (slaves s) \<and> pc (slaves s ! i) = Locking
      then Some (seq [lock (Slave i) PoolObj, take_or_wait i] s) else None)"
| "step (SlaveWake i) s =
     (if i < length (slaves s) \<and> pc (slaves s ! i) = PoolWaiting
      then Some (seq [woken (Slave i) PoolObj, take_or_wait i] s) else None)"
| "step (SlaveStart i) s =
     (if i < length (slaves s)
      then (case pc (slaves s ! i) of Dequeued lTask \<Rightarrow> Some (slave_start i lTask s) | _ \<Rightarrow> None)
      else None)"
| "step (SlaveMain i out) s =
     (if i < length (slaves s)
      then (case pc (slaves s ! i) of Executing lTask \<Rightarrow> Some (slave_main i lTask out s) | _ \<Rightarrow> None)
      else None)"
| "step (SlaveFinish i) s =
     (if i < length (slaves s)
      then (case pc (slaves s ! i) of Returned lTask \<Rightarrow> Some (slave_finish i lTask s) | _ \<Rightarrow> None)
      else None)"
| "step OwnerBegin s = (if owner s = Alive then Some (owner_begin s) else None)"
| "step OwnerWake s =
     (case owner s of Draining lTask \<Rightarrow> Some (owner_wake lTask s) | _ \<Rightarrow> None)"
| "step OwnerDelete s =
     (case owner s of
        Deleting k \<Rightarrow>
          (if k < length (slaves s) \<and> ended (slaves s ! k) then Some (owner_delete k s) else None)
      | _ \<Rightarrow> None)"

fun run :: "move list \<Rightarrow> pool \<Rightarrow> pool option" where
  "run [] s = Some s"
| "run (m # ms) s = (case step m s of None \<Rightarrow> None | Some s' \<Rightarrow> run ms s')"

text \<open>The thread that makes a move.\<close>

fun actor :: "move \<Rightarrow> thread" where
  "actor (PushReset t) = Producer"
| "actor (PushEnqueue t) = Producer"
| "actor (SlaveTest i) = Slave i"
| "actor (SlaveLock i) = Slave i"
| "actor (SlaveWake i) = Slave i"
| "actor (SlaveStart i) = Slave i"
| "actor (SlaveMain i out) = Slave i"
| "actor (SlaveFinish i) = Slave i"
| "actor OwnerBegin = Owner"
| "actor OwnerWake = Owner"
| "actor OwnerDelete = Owner"

subsection \<open>Reading the record of actions\<close>

text \<open>The actions of one thread, in order.\<close>

definition acts :: "thread \<Rightarrow> pool \<Rightarrow> action list" where
  "acts th s = map snd (filter (\<lambda>e. fst e = th) (trace s))"

text \<open>The locks a thread holds after its actions.\<close>

fun hold :: "action \<Rightarrow> object list \<Rightarrow> object list" where
  "hold (Lock ob) hs = ob # hs"
| "hold (Woken ob) hs = ob # hs"
| "hold (Unlock ob) hs = remove1 ob hs"
| "hold (Wait ob) hs = remove1 ob hs"
| "hold a hs = hs"

definition held :: "action list \<Rightarrow> object list" where
  "held as = fold hold as []"

text \<open>The tasks put into the queue and taken from it, in order.\<close>

fun enqueued :: "(thread \<times> action) list \<Rightarrow> task_ptr list" where
  "enqueued [] = []"
| "enqueued ((th, Enqueue t) # es) = t # enqueued es"
| "enqueued (e # es) = enqueued es"

fun dequeued :: "(thread \<times> action) list \<Rightarrow> task_ptr list" where
  "dequeued [] = []"
| "dequeued ((th, Dequeue t) # es) = t # dequeued es"
| "dequeued (e # es) = dequeued es"

text \<open>A task that no part of the pool has begun to handle.\<close>

definition idle :: "task" where
  "idle = \<lparr>mRunning = False, mCompleted = False\<rparr>"

section \<open>Invariants and auxiliary notions\<close>

text \<open>What the semaphore's fields are in every state that several threads can reach.\<close>

definition sem_inv :: "sem_sys \<Rightarrow> bool" where
  "sem_inv \<sigma> \<longleftrightarrow>
     acquisitions (returned \<sigma>) \<le> posts (returned \<sigma>)
     \<and> mCount (sem \<sigma>) = word_of_nat (posts (returned \<sigma>)) - word_of_nat (acquisitions (returned \<sigma>))
     \<and> mWaiters (sem \<sigma>) = word_of_nat (length (blocked \<sigma>))"

text \<open>The queue is what has been put in and not yet taken out, in the order of entry.\<close>

definition fifo :: "pool \<Rightarrow> bool" where
  "fifo s \<longleftrightarrow> dequeued (trace s) @ mTasks s = enqueued (trace s)"

text \<open>The actions that a step adds to the record.\<close>

definition fresh :: "pool \<Rightarrow> pool \<Rightarrow> action list" where
  "fresh s s' = map snd (drop (length (trace s)) (trace s'))"

text \<open>
  A task is in flight from the moment a \<open>push\<close> resets it until the slave that took it
  has finished with it: it is being pushed, it is in the queue, or a slave holds it.
\<close>

fun holds_task :: "slave_pc \<Rightarrow> task_ptr \<Rightarrow> bool" where
  "holds_task (Dequeued u) t = (u = t)"
| "holds_task (Executing u) t = (u = t)"
| "holds_task (Returned u) t = (u = t)"
| "holds_task p t = False"

definition in_flight :: "pool \<Rightarrow> task_ptr \<Rightarrow> bool" where
  "in_flight s t \<longleftrightarrow>
     t \<in> set (resetting s) \<or> t \<in> set (mTasks s) \<or> (\<exists>sl\<in>set (slaves s). holds_task (pc sl) t)"

text \<open>
  A caller uses the pool well when it pushes no task that is in flight (the spec's "a
  task is enqueued at most once at a time"). The other moves are not restricted.
\<close>

fun well_used :: "move list \<Rightarrow> pool \<Rightarrow> bool" where
  "well_used [] s = True"
| "well_used (m # ms) s =
     ((case m of PushReset t \<Rightarrow> \<not> in_flight s t | _ \<Rightarrow> True)
      \<and> (case step m s of None \<Rightarrow> True | Some s' \<Rightarrow> well_used ms s'))"

text \<open>A task that has been passed to \<open>push\<close>.\<close>

definition pushed :: "pool \<Rightarrow> task_ptr \<Rightarrow> bool" where
  "pushed s t \<longleftrightarrow> (Producer, Reset t) \<in> set (trace s)"

text \<open>
  What holds of the tasks in flight when the pool is used well, stated of the parts of
  the state it depends on: the pushes under way \<open>r\<close>, the queue \<open>q\<close>, the places \<open>ps\<close> of the
  slaves, the store \<open>hp\<close> and the set \<open>P\<close> of the tasks pushed so far. No task is in
  flight twice; a task that waits for a slave has both flags clear; a task in the hands
  of a slave is not completed; and no pushed task has both flags set.
\<close>

definition Tidy ::
  "task_ptr list \<Rightarrow> task_ptr list \<Rightarrow> slave_pc list \<Rightarrow> (task_ptr \<Rightarrow> task) \<Rightarrow> task_ptr set \<Rightarrow> bool" where
  "Tidy r q ps hp P \<longleftrightarrow>
     distinct (r @ q)
     \<and> (\<forall>i<length ps. \<forall>t. holds_task (ps ! i) t \<longrightarrow> t \<notin> set (r @ q) \<and> t \<in> P)
     \<and> (\<forall>i<length ps. \<forall>j<length ps. \<forall>t.
           holds_task (ps ! i) t \<and> holds_task (ps ! j) t \<longrightarrow> i = j)
     \<and> (\<forall>t\<in>set (r @ q). \<not> mRunning (hp t) \<and> \<not> mCompleted (hp t) \<and> t \<in> P)
     \<and> (\<forall>i<length ps. \<forall>t.
           (ps ! i = Dequeued t \<longrightarrow> \<not> mRunning (hp t) \<and> \<not> mCompleted (hp t))
           \<and> (ps ! i = Executing t \<or> ps ! i = Returned t \<longrightarrow> \<not> mCompleted (hp t)))
     \<and> (\<forall>t\<in>P. \<not> (mRunning (hp t) \<and> mCompleted (hp t)))"

definition tidy :: "pool \<Rightarrow> bool" where
  "tidy s \<longleftrightarrow> Tidy (resetting s) (mTasks s) (map pc (slaves s)) (heap s) {t. pushed s t}"

text \<open>The slaves after line 123: all of them cancelled, none of them moved.\<close>

definition cancelling :: "slave list \<Rightarrow> slave list" where
  "cancelling sls = map (\<lambda>sl. sl\<lparr>mCancel := True\<rparr>) sls"

text \<open>
  The owner has not left the loop of lines 112-121: it has not called the destructor yet,
  or it waits inside the loop.
\<close>

definition draining :: "pool \<Rightarrow> bool" where
  "draining s \<longleftrightarrow> (case owner s of Deleting k \<Rightarrow> False | _ \<Rightarrow> True)"

text \<open>No slave is cancelled, and the owner has cancelled none.\<close>

definition uncancelled :: "pool \<Rightarrow> bool" where
  "uncancelled s \<longleftrightarrow> (\<forall>sl\<in>set (slaves s). \<not> mCancel sl) \<and> (\<forall>i. Cancel i \<notin> set (acts Owner s))"

text \<open>How many times an action has been done, by whatever thread.\<close>

definition tally :: "action \<Rightarrow> pool \<Rightarrow> nat" where
  "tally a s = count_list (map snd (trace s)) a"

text \<open>
  The slaves that have taken task \<open>t\<close> from the queue and on which \<open>lTask->main()\<close> has not
  ended yet, and the slaves between the return of \<open>lTask->main()\<close> and the final
  transition of \<open>t\<close>.
\<close>

definition starting :: "task_ptr \<Rightarrow> pool \<Rightarrow> nat" where
  "starting t s = length (filter (\<lambda>p. p = Dequeued t \<or> p = Executing t) (map pc (slaves s)))"

definition finishing :: "task_ptr \<Rightarrow> pool \<Rightarrow> nat" where
  "finishing t s = length (filter (\<lambda>p. p = Returned t) (map pc (slaves s)))"

text \<open>
  Every task taken from the queue has been run or is in the hands of a slave; as long as
  no slave has died, every task that has been run has been marked completed or is about
  to be.
\<close>

definition matched :: "pool \<Rightarrow> bool" where
  "matched s \<longleftrightarrow> (\<forall>t. tally (Dequeue t) s = tally (Main t) s + starting t s)"

definition concluded :: "pool \<Rightarrow> bool" where
  "concluded s \<longleftrightarrow>
     ((\<forall>sl\<in>set (slaves s). pc sl \<noteq> Died) \<longrightarrow>
      (\<forall>t. tally (Main t) s = tally (SetCompleted t True) s + finishing t s))"

text \<open>The slaves that the owner has deleted have ended.\<close>

definition joined :: "pool \<Rightarrow> bool" where
  "joined s \<longleftrightarrow>
     (\<forall>k. owner s = Deleting k \<longrightarrow>
        k \<le> length (slaves s) \<and> (\<forall>i<k. pc (slaves s ! i) = Exited \<or> pc (slaves s ! i) = Died))"

text \<open>What holds in a pool without slaves: nothing is dequeued, nothing runs.\<close>

definition unserved :: "pool \<Rightarrow> bool" where
  "unserved s \<longleftrightarrow>
     slaves s = [] \<and> dequeued (trace s) = []
     \<and> (\<forall>th t. (th, Main t) \<notin> set (trace s))
     \<and> (\<forall>t. pushed s t \<longrightarrow> heap s t = idle)"

section \<open>Properties of the semaphore\<close>

text \<open>An \<open>int\<close> read as a signed number, and when adding or subtracting one does not wrap.\<close>

lemma sint_bounds: "- 2147483648 \<le> sint (x :: cxx_int)" "sint (x :: cxx_int) \<le> 2147483647"
  using sint_ge[of x] sint_lt[of x] by simp_all

lemma sint_succ: "sint (x :: cxx_int) < 2147483647 \<Longrightarrow> sint (x + 1) = sint x + 1"
  using sint_bounds[of x] by (simp add: sint_word_add signed_take_bit_int_eq_self)

lemma sint_pred: "- 2147483648 < sint (x :: cxx_int) \<Longrightarrow> sint (x - 1) = sint x - 1"
  using sint_bounds[of x] by (simp add: sint_word_diff signed_take_bit_int_eq_self)

lemma sint_succ_max: "sint (x :: cxx_int) = 2147483647 \<Longrightarrow> sint (x + 1) = - 2147483648"
proof -
  assume "sint x = 2147483647"
  then have "sint x = sint (2147483647 :: cxx_int)" by simp
  then have "x = 2147483647" by (simp only: signed_word_eqI)
  then show ?thesis by simp
qed

lemma sint_of_nat: "n \<le> 2147483647 \<Longrightarrow> sint (word_of_nat n :: cxx_int) = int n"
  by (simp add: signed_of_nat signed_take_bit_int_eq_self)

lemma calls_cond_wait: "calls (cond_wait w s) = calls s @ [CondWait]"
  and count_cond_wait: "mCount (cond_wait w s) = mCount s + dCount w"
  and waiters_cond_wait: "mWaiters (cond_wait w s) = mWaiters s + dWaiters w"
  by (simp_all add: cond_wait_def sem_call_def)

lemma wait_loop_char:
  "wait_loop b s ws = Some (r, s') \<Longrightarrow>
   \<exists>n\<le>length ws.
     calls s' = calls s @ replicate n CondWait
     \<and> mCount s' = mCount s + sum_list (map dCount (take n ws))
     \<and> mWaiters s' = mWaiters s + sum_list (map dWaiters (take n ws))
     \<and> (\<forall>k<n. sint (mCount s + sum_list (map dCount (take k ws))) \<le> 0)
     \<and> (\<forall>k. Suc k < n \<longrightarrow> signalled (ws ! k))
     \<and> (n = 0 \<longrightarrow> r = b)
     \<and> (0 < n \<longrightarrow> b \<and> r = signalled (ws ! (n - 1)))
     \<and> \<not> (sint (mCount s') \<le> 0 \<and> r)"
proof (induction ws arbitrary: b s)
  case Nil
  then show ?case by (auto split: if_splits)
next
  case (Cons w ws)
  show ?case
  proof (cases "sint (mCount s) \<le> 0 \<and> b")
    case False
    with Cons.prems have "r = b" "s' = s" by auto
    with False show ?thesis by (intro exI[of _ 0]) auto
  next
    case True
    with Cons.prems have "wait_loop (signalled w) (cond_wait w s) ws = Some (r, s')" by simp
    from Cons.IH[OF this] obtain n where n: "n \<le> length ws"
      "calls s' = calls (cond_wait w s) @ replicate n CondWait"
      "mCount s' = mCount (cond_wait w s) + sum_list (map dCount (take n ws))"
      "mWaiters s' = mWaiters (cond_wait w s) + sum_list (map dWaiters (take n ws))"
      "\<forall>k<n. sint (mCount (cond_wait w s) + sum_list (map dCount (take k ws))) \<le> 0"
      "\<forall>k. Suc k < n \<longrightarrow> signalled (ws ! k)"
      "n = 0 \<longrightarrow> r = signalled w"
      "0 < n \<longrightarrow> signalled w \<and> r = signalled (ws ! (n - 1))"
      "\<not> (sint (mCount s') \<le> 0 \<and> r)" by blast
    have a: "\<forall>k<Suc n. sint (mCount s + sum_list (map dCount (take k (w # ws)))) \<le> 0"
    proof (intro allI impI)
      fix k assume "k < Suc n"
      show "sint (mCount s + sum_list (map dCount (take k (w # ws)))) \<le> 0"
      proof (cases k)
        case 0 with True show ?thesis by simp
      next
        case (Suc j)
        with \<open>k < Suc n\<close> have "j < n" by simp
        with n(5) have "sint (mCount (cond_wait w s) + sum_list (map dCount (take j ws))) \<le> 0" by blast
        with Suc show ?thesis by (simp add: count_cond_wait add.assoc)
      qed
    qed
    have b: "\<forall>k. Suc k < Suc n \<longrightarrow> signalled ((w # ws) ! k)"
    proof (intro allI impI)
      fix k assume k: "Suc k < Suc n"
      show "signalled ((w # ws) ! k)"
      proof (cases k)
        case 0 with k n(8) show ?thesis by simp
      next
        case (Suc j) with k n(6) show ?thesis by simp
      qed
    qed
    have c: "r = signalled ((w # ws) ! (Suc n - 1))"
      using n(7,8) by (cases n) auto
    show ?thesis
      using n(1-4,9) a b c True
      by (intro exI[of _ "Suc n"])
        (simp add: calls_cond_wait count_cond_wait waiters_cond_wait replicate_append_same add.assoc)
  qed
qed

lemma wait_loop_False: "wait_loop False s ws = Some (False, s)"
  by (cases ws) simp_all

lemma wait_loop_spurious:
  "sint (mCount s) \<le> 0 \<Longrightarrow>
   wait_loop True s (replicate k (quiet True) @ quiet False # ws) =
     Some (False, s\<lparr>calls := calls s @ replicate (Suc k) CondWait\<rparr>)"
proof (induction k arbitrary: s)
  case 0
  then show ?case by (simp add: quiet_def cond_wait_def sem_call_def wait_loop_False)
next
  case (Suc k)
  have "sint (mCount (cond_wait (quiet True) s)) \<le> 0" using Suc.prems by (simp add: quiet_def cond_wait_def sem_call_def)
  from Suc.IH[OF this] Suc.prems show ?case
    by (simp add: quiet_def cond_wait_def sem_call_def replicate_append_same)
qed

text \<open>
  Claim C3. \<open>Semaphore::wait\<close> tests \<open>mCount <= 0\<close> again after every wake-up. When it
  returns after \<open>n\<close> calls of \<open>Condition::wait\<close>, the count was not positive before each
  of them and every call but the last returned true without a resource being there (a
  wake-up that the loop absorbs); it returns false only when the last call timed out;
  what it does to the count itself is nothing when it returns false and a decrement by
  exactly one when it returns true (the rest of the difference is what the other threads
  did meanwhile), a decrement of a positive count, which does not wrap; and the
  increment of \<open>mWaiters\<close> is undone. On a semaphore that stays empty, any number of
  wake-ups followed by a time-out makes it return false with the count and the number
  of waiters as they were; with a positive count it returns true at once.
\<close>

theorem wait_rechecks_and_restores:
  "(wait ws inLock s = Some (r, s') \<longrightarrow>
     (\<exists>n\<le>length ws.
        cond_waits (calls s') = cond_waits (calls s) + n
        \<and> (\<forall>k<n. sint (mCount s + sum_list (map dCount (take k ws))) \<le> 0)
        \<and> (\<forall>k. Suc k < n \<longrightarrow> signalled (ws ! k))
        \<and> (\<not> r \<longrightarrow> 0 < n \<and> \<not> signalled (ws ! (n - 1)))
        \<and> (r \<longrightarrow> 0 < sint (mCount s + sum_list (map dCount (take n ws))))
        \<and> mCount s' = mCount s + sum_list (map dCount (take n ws)) - (if r then 1 else 0)
        \<and> sint (mCount s') =
            sint (mCount s + sum_list (map dCount (take n ws))) - (if r then 1 else 0)
        \<and> mWaiters s' = mWaiters s + sum_list (map dWaiters (take n ws))))
   \<and> (sint (mCount s) \<le> 0 \<longrightarrow>
        (\<exists>s'. wait (replicate k (quiet True) @ [quiet False]) inLock s = Some (False, s')
           \<and> mCount s' = mCount s \<and> mWaiters s' = mWaiters s
           \<and> cond_waits (calls s') = cond_waits (calls s) + Suc k))
   \<and> (0 < sint (mCount s) \<longrightarrow>
        (\<exists>s'. wait ws inLock s = Some (True, s')
           \<and> mCount s' = mCount s - 1 \<and> sint (mCount s') = sint (mCount s) - 1
           \<and> mWaiters s' = mWaiters s
           \<and> cond_waits (calls s') = cond_waits (calls s)))"
proof (intro conjI impI)
  assume w: "wait ws inLock s = Some (r, s')"
  then obtain s1 where l: "wait_loop True (wait_enter inLock s) ws = Some (r, s1)"
    and e: "s' = snd (wait_exit inLock r s1)"
    by (auto simp: wait_def wait_exit_def Let_def split: option.splits)
  from wait_loop_char[OF l] obtain n where n: "n \<le> length ws"
      "calls s1 = calls (wait_enter inLock s) @ replicate n CondWait"
      "mCount s1 = mCount (wait_enter inLock s) + sum_list (map dCount (take n ws))"
      "mWaiters s1 = mWaiters (wait_enter inLock s) + sum_list (map dWaiters (take n ws))"
      "\<forall>k<n. sint (mCount (wait_enter inLock s) + sum_list (map dCount (take k ws))) \<le> 0"
      "\<forall>k. Suc k < n \<longrightarrow> signalled (ws ! k)"
      "n = 0 \<longrightarrow> r = True"
      "0 < n \<longrightarrow> True \<and> r = signalled (ws ! (n - 1))"
      "\<not> (sint (mCount s1) \<le> 0 \<and> r)" by blast
  have c: "mCount (wait_enter inLock s) = mCount s" "mWaiters (wait_enter inLock s) = mWaiters s + 1"
    "cond_waits (calls (wait_enter inLock s)) = cond_waits (calls s)"
    by (simp_all add: wait_enter_def sem_call_def Let_def cond_waits_def)
  have x: "cond_waits (calls s') = cond_waits (calls s1)" "mCount s' = mCount s1 - (if r then 1 else 0)"
    "mWaiters s' = mWaiters s1 - 1"
    using e by (simp_all add: wait_exit_def sem_call_def Let_def cond_waits_def)
  have y: "cond_waits (calls s') = cond_waits (calls s) + n"
    using n(2) c(3) x(1) by (simp add: cond_waits_def)
  have z: "sint (mCount s') = sint (mCount s1) - (if r then 1 else 0)"
  proof (cases r)
    case True
    with n(9) have "- 2147483648 < sint (mCount s1)" by simp
    from sint_pred[OF this] True x(2) show ?thesis by simp
  next
    case False
    with x(2) show ?thesis by simp
  qed
  have m: "mCount s1 = mCount s + sum_list (map dCount (take n ws))"
    using n(3) c(1) by simp
  have v: "mWaiters s' = mWaiters s + sum_list (map dWaiters (take n ws))"
    using n(4) c(2) x(3) by simp
  have p: "\<forall>k<n. sint (mCount s + sum_list (map dCount (take k ws))) \<le> 0"
    using n(5) c(1) by simp
  have q: "\<not> r \<longrightarrow> 0 < n \<and> \<not> signalled (ws ! (n - 1))"
    using n(7,8) by (cases n) auto
  have u: "r \<longrightarrow> 0 < sint (mCount s + sum_list (map dCount (take n ws)))"
    using n(9) m by auto
  show "\<exists>n\<le>length ws.
        cond_waits (calls s') = cond_waits (calls s) + n
        \<and> (\<forall>k<n. sint (mCount s + sum_list (map dCount (take k ws))) \<le> 0)
        \<and> (\<forall>k. Suc k < n \<longrightarrow> signalled (ws ! k))
        \<and> (\<not> r \<longrightarrow> 0 < n \<and> \<not> signalled (ws ! (n - 1)))
        \<and> (r \<longrightarrow> 0 < sint (mCount s + sum_list (map dCount (take n ws))))
        \<and> mCount s' = mCount s + sum_list (map dCount (take n ws)) - (if r then 1 else 0)
        \<and> sint (mCount s') =
            sint (mCount s + sum_list (map dCount (take n ws))) - (if r then 1 else 0)
        \<and> mWaiters s' = mWaiters s + sum_list (map dWaiters (take n ws))"
    using n(1,6) p q u x(2) y z v unfolding m by (intro exI[of _ n]) blast
next
  assume "sint (mCount s) \<le> 0"
  then have "sint (mCount (wait_enter inLock s)) \<le> 0" by (simp add: wait_enter_def sem_call_def Let_def)
  from wait_loop_spurious[OF this, of k "[]"]
  show "\<exists>s'. wait (replicate k (quiet True) @ [quiet False]) inLock s = Some (False, s')
           \<and> mCount s' = mCount s \<and> mWaiters s' = mWaiters s
           \<and> cond_waits (calls s') = cond_waits (calls s) + Suc k"
    by (simp add: wait_def wait_exit_def wait_enter_def sem_call_def Let_def cond_waits_def)
next
  assume a: "0 < sint (mCount s)"
  then have "wait_loop True (wait_enter inLock s) ws = Some (True, wait_enter inLock s)"
    by (cases ws) (simp_all add: wait_enter_def sem_call_def Let_def)
  moreover have "sint (mCount s - 1) = sint (mCount s) - 1"
    using a by (intro sint_pred) simp
  ultimately show "\<exists>s'. wait ws inLock s = Some (True, s')
           \<and> mCount s' = mCount s - 1 \<and> sint (mCount s') = sint (mCount s) - 1
           \<and> mWaiters s' = mWaiters s
           \<and> cond_waits (calls s') = cond_waits (calls s)"
    by (simp add: wait_def wait_exit_def wait_enter_def sem_call_def Let_def cond_waits_def)
qed

theorem wait_witness:
  "wait [quiet True, quiet False] True (Semaphore 0) =
     Some (False, \<lparr>mCount = 0, mWaiters = 0,
                   calls = [MutexLock, CondWait, CondWait, MutexUnlock]\<rparr>)
   \<and> wait [\<lparr>signalled = True, dCount = 1, dWaiters = 0\<rparr>] True (Semaphore 0) =
     Some (True, \<lparr>mCount = 0, mWaiters = 0, calls = [MutexLock, CondWait, MutexUnlock]\<rparr>)
   \<and> wait [] True (Semaphore 1) =
     Some (True, \<lparr>mCount = 0, mWaiters = 0, calls = [MutexLock, MutexUnlock]\<rparr>)
   \<and> wait [] True (Semaphore 0) = None"
  using wait_rechecks_and_restores [of "[quiet True, quiet False]" True "Semaphore 0" False
      "\<lparr>mCount = 0, mWaiters = 0, calls = [MutexLock, CondWait, CondWait, MutexUnlock]\<rparr>" 1]
  by (simp add: wait_def wait_enter_def wait_exit_def cond_wait_def sem_call_def Semaphore_def
      quiet_def cond_waits_def Let_def)

text \<open>
  Claim C4, as amended. \<open>Semaphore::post\<close> adds one to the count in the arithmetic of
  \<open>int\<close>: exactly one when the count is below \<open>INT_MAX\<close>, while at \<open>INT_MAX\<close> the sum wraps
  around to the least \<open>int\<close>. It leaves the number of waiters alone, and calls
  \<open>Condition::signal\<close>, once, exactly when \<open>mWaiters\<close> is positive. With nobody waiting no
  signal is sent, and the resource is kept by the count, so that the next \<open>tryWait\<close>
  succeeds, exactly when the count was at least zero and below \<open>INT_MAX\<close>.
\<close>

theorem post_increments_signals_iff_waiting:
  "mCount (post inLock s) = mCount s + 1
   \<and> (sint (mCount s) < INT_MAX \<longrightarrow> sint (mCount (post inLock s)) = sint (mCount s) + 1)
   \<and> (sint (mCount s) = INT_MAX \<longrightarrow> sint (mCount (post inLock s)) = - INT_MAX - 1)
   \<and> mWaiters (post inLock s) = mWaiters s
   \<and> calls (post inLock s) =
       calls s @ (if inLock then [MutexLock] else [])
         @ (if 0 < sint (mWaiters s) then [CondSignal] else [])
         @ (if inLock then [MutexUnlock] else [])
   \<and> (CondSignal \<in> set (drop (length (calls s)) (calls (post inLock s)))
        \<longleftrightarrow> 0 < sint (mWaiters s))
   \<and> (fst (tryWait inLock' (post inLock s))
        \<longleftrightarrow> 0 \<le> sint (mCount s) \<and> sint (mCount s) < INT_MAX)
   \<and> (sint (mWaiters s) \<le> 0 \<and> 0 \<le> sint (mCount s) \<and> sint (mCount s) < INT_MAX \<longrightarrow>
        CondSignal \<notin> set (drop (length (calls s)) (calls (post inLock s)))
        \<and> fst (tryWait inLock' (post inLock s))
        \<and> mCount (snd (tryWait inLock' (post inLock s))) = mCount s)"
proof -
  have c: "mCount (post inLock s) = mCount s + 1"
    by (simp add: post_def sem_call_def Let_def)
  have lt: "sint (mCount s) < INT_MAX \<longrightarrow> sint (mCount s + 1) = sint (mCount s) + 1"
    by (simp add: INT_MAX_def sint_succ)
  have eq: "sint (mCount s) = INT_MAX \<longrightarrow> sint (mCount s + 1) = - INT_MAX - 1"
    by (simp add: INT_MAX_def sint_succ_max)
  have le: "sint (mCount s) \<le> INT_MAX"
    using sint_bounds(2)[of "mCount s"] by (simp add: INT_MAX_def)
  have t: "fst (tryWait inLock' (post inLock s)) \<longleftrightarrow> 0 < sint (mCount s + 1)"
    by (simp add: post_def tryWait_def sem_call_def Let_def)
  have t': "0 < sint (mCount s + 1) \<longleftrightarrow> 0 \<le> sint (mCount s) \<and> sint (mCount s) < INT_MAX"
  proof (cases "sint (mCount s) < INT_MAX")
    case True
    with lt show ?thesis by auto
  next
    case False
    with le have "sint (mCount s) = INT_MAX" by simp
    with eq show ?thesis by (simp add: INT_MAX_def)
  qed
  have u: "fst (tryWait inLock' (post inLock s)) \<longrightarrow>
      mCount (snd (tryWait inLock' (post inLock s))) = mCount s"
    by (simp add: post_def tryWait_def sem_call_def Let_def)
  have w: "mWaiters (post inLock s) = mWaiters s"
    "calls (post inLock s) =
       calls s @ (if inLock then [MutexLock] else [])
         @ (if 0 < sint (mWaiters s) then [CondSignal] else [])
         @ (if inLock then [MutexUnlock] else [])"
    "CondSignal \<in> set (drop (length (calls s)) (calls (post inLock s)))
        \<longleftrightarrow> 0 < sint (mWaiters s)"
    by (simp_all add: post_def sem_call_def Let_def)
  show ?thesis
    using lt eq t t' u w unfolding c by (intro conjI) auto
qed

theorem post_witness:
  "sint (mWaiters (Semaphore 0)) \<le> 0 \<and> 0 \<le> sint (mCount (Semaphore 0))
   \<and> sint (mCount (Semaphore 0)) < INT_MAX
   \<and> mCount (post True (Semaphore 0)) = 1
   \<and> calls (post True (Semaphore 0)) = [MutexLock, MutexUnlock]
   \<and> fst (tryWait True (post True (Semaphore 0)))
   \<and> mCount (snd (tryWait True (post True (Semaphore 0)))) = 0
   \<and> calls (post True ((Semaphore 0)\<lparr>mWaiters := 2\<rparr>)) = [MutexLock, CondSignal, MutexUnlock]
   \<and> sint (mCount (Semaphore 2147483647)) = INT_MAX
   \<and> sint (mCount (post True (Semaphore 2147483647))) = - INT_MAX - 1"
  using post_increments_signals_iff_waiting [of True "Semaphore 0" True]
    post_increments_signals_iff_waiting [of True "(Semaphore 0)\<lparr>mWaiters := 2\<rparr>" True]
    post_increments_signals_iff_waiting [of True "Semaphore 2147483647" True]
  by (simp add: Semaphore_def INT_MAX_def)

text \<open>
  The claim as it stands, an increment by exactly one whose result the count keeps, fails
  at the largest count: on \<open>Semaphore(INT_MAX)\<close> with nobody waiting, \<open>post\<close> sends no
  signal and leaves the least \<open>int\<close> in the count, and the \<open>tryWait\<close> that follows finds
  nothing.
\<close>

theorem post_at_INT_MAX_counterexample:
  "sint (mCount (Semaphore 2147483647)) = 2147483647
   \<and> sint (mWaiters (Semaphore 2147483647)) = 0
   \<and> sint (mCount (post True (Semaphore 2147483647))) = - 2147483648
   \<and> sint (mCount (post True (Semaphore 2147483647))) \<noteq> sint (mCount (Semaphore 2147483647)) + 1
   \<and> calls (post True (Semaphore 2147483647)) = [MutexLock, MutexUnlock]
   \<and> fst (tryWait True (post True (Semaphore 2147483647))) = False"
  by (simp add: Semaphore_def post_def tryWait_def sem_call_def Let_def)

text \<open>
  Claim C5. \<open>Semaphore::tryWait\<close> is a total function that never calls
  \<open>Condition::wait\<close>: it does not wait for a resource. It returns true and takes
  one from the count when the count is positive, and returns false with the count
  unchanged otherwise. From a count of zero it returns false, and after one \<open>post\<close> it
  returns true once and false the next time.
\<close>

theorem tryWait_never_blocks:
  "fst (tryWait inLock s) = (0 < sint (mCount s))
   \<and> mCount (snd (tryWait inLock s)) = (if 0 < sint (mCount s) then mCount s - 1 else mCount s)
   \<and> sint (mCount (snd (tryWait inLock s))) =
       (if 0 < sint (mCount s) then sint (mCount s) - 1 else sint (mCount s))
   \<and> mWaiters (snd (tryWait inLock s)) = mWaiters s
   \<and> calls (snd (tryWait inLock s)) =
        calls s @ (if inLock then [MutexLock, MutexUnlock] else [])
   \<and> cond_waits (calls (snd (tryWait inLock s))) = cond_waits (calls s)
   \<and> (mCount s = 0 \<longrightarrow>
        \<not> fst (tryWait inLock s)
        \<and> fst (tryWait inLock (post inLock s))
        \<and> \<not> fst (tryWait inLock (snd (tryWait inLock (post inLock s))))
        \<and> mCount (snd (tryWait inLock (snd (tryWait inLock (post inLock s))))) = 0)"
proof -
  have "0 < sint (mCount s) \<longrightarrow> sint (mCount s - 1) = sint (mCount s) - 1"
    by (simp add: sint_pred)
  then have a: "fst (tryWait inLock s) = (0 < sint (mCount s))
   \<and> mCount (snd (tryWait inLock s)) = (if 0 < sint (mCount s) then mCount s - 1 else mCount s)
   \<and> sint (mCount (snd (tryWait inLock s))) =
       (if 0 < sint (mCount s) then sint (mCount s) - 1 else sint (mCount s))
   \<and> mWaiters (snd (tryWait inLock s)) = mWaiters s
   \<and> calls (snd (tryWait inLock s)) =
        calls s @ (if inLock then [MutexLock, MutexUnlock] else [])
   \<and> cond_waits (calls (snd (tryWait inLock s))) = cond_waits (calls s)"
    by (simp add: tryWait_def sem_call_def Let_def cond_waits_def)
  have b: "mCount s = 0 \<longrightarrow>
        \<not> fst (tryWait inLock s)
        \<and> fst (tryWait inLock (post inLock s))
        \<and> \<not> fst (tryWait inLock (snd (tryWait inLock (post inLock s))))
        \<and> mCount (snd (tryWait inLock (snd (tryWait inLock (post inLock s))))) = 0"
  proof
    assume "mCount s = 0"
    then show "\<not> fst (tryWait inLock s)
        \<and> fst (tryWait inLock (post inLock s))
        \<and> \<not> fst (tryWait inLock (snd (tryWait inLock (post inLock s))))
        \<and> mCount (snd (tryWait inLock (snd (tryWait inLock (post inLock s))))) = 0"
      by (simp add: post_def tryWait_def sem_call_def Let_def)
  qed
  from a b show ?thesis by blast
qed

theorem tryWait_witness:
  "mCount (Semaphore 0) = 0
   \<and> \<not> fst (tryWait True (Semaphore 0))
   \<and> fst (tryWait True (post True (Semaphore 0)))
   \<and> \<not> fst (tryWait True (snd (tryWait True (post True (Semaphore 0)))))
   \<and> fst (tryWait True (Semaphore 2))
   \<and> mCount (snd (tryWait True (Semaphore 2))) = 1
   \<and> sint (mCount (snd (tryWait True (Semaphore 2)))) = 1"
  using tryWait_never_blocks [of True "Semaphore 0"] tryWait_never_blocks [of True "Semaphore 2"]
  by (simp add: Semaphore_def)

subsection \<open>Several threads\<close>

text \<open>
  The steps of one thread inside \<open>wait\<close>, with no step of another thread in between, are
  the function \<open>wait\<close> with wake-ups at which nothing else has changed.
\<close>

lemma cond_wait_quiet: "cond_wait (quiet b) s = sem_call CondWait s"
  by (simp add: cond_wait_def quiet_def sem_call_def)

lemma signalled_quiet: "signalled (quiet b) = b"
  by (simp add: quiet_def)

lemma wait_loop_as_steps:
  assumes "wait_loop b s (map quiet bs) = Some (r, s1)" "th \<notin> set (blocked \<sigma>)"
  shows "\<exists>n\<le>length bs.
           sem_run (map (WaitWake th) (take n bs)) (wait_resume th b (\<sigma>\<lparr>sem := s\<rparr>)) =
             Some (\<sigma>\<lparr>sem := snd (wait_exit True r s1), returned := returned \<sigma> @ [WaitRet r]\<rparr>)"
  using assms
proof (induction bs arbitrary: b s)
  case Nil
  then show ?case by (auto simp: wait_resume_def wait_exit_def Let_def split: if_splits)
next
  case (Cons b' bs)
  show ?case
  proof (cases "sint (mCount s) \<le> 0 \<and> b")
    case False
    with Cons.prems have "r = b" "s1 = s" by auto
    with False show ?thesis
      by (intro exI[of _ 0]) (auto simp: wait_resume_def wait_exit_def Let_def)
  next
    case True
    with Cons.prems have l: "wait_loop b' (sem_call CondWait s) (map quiet bs) = Some (r, s1)"
      by (simp add: cond_wait_quiet signalled_quiet)
    from Cons.IH[OF l Cons.prems(2)] obtain n where n: "n \<le> length bs"
      "sem_run (map (WaitWake th) (take n bs)) (wait_resume th b' (\<sigma>\<lparr>sem := sem_call CondWait s\<rparr>)) =
         Some (\<sigma>\<lparr>sem := snd (wait_exit True r s1), returned := returned \<sigma> @ [WaitRet r]\<rparr>)"
      by blast
    have "sem_step (WaitWake th b') (wait_resume th b (\<sigma>\<lparr>sem := s\<rparr>)) =
            Some (wait_resume th b' (\<sigma>\<lparr>sem := sem_call CondWait s\<rparr>))"
      using True Cons.prems(2) by (simp add: wait_resume_def)
    with n show ?thesis by (intro exI[of _ "Suc n"]) simp
  qed
qed

lemma wait_as_steps:
  assumes "wait (map quiet bs) True (sem \<sigma>) = Some (r, s')" "th \<notin> set (blocked \<sigma>)"
  shows "\<exists>n\<le>length bs.
           sem_run (WaitCall th # map (WaitWake th) (take n bs)) \<sigma> =
             Some (\<sigma>\<lparr>sem := s', returned := returned \<sigma> @ [WaitRet r]\<rparr>)"
proof -
  from assms(1) obtain s1 where l: "wait_loop True (wait_enter True (sem \<sigma>)) (map quiet bs) = Some (r, s1)"
    and e: "s' = snd (wait_exit True r s1)"
    by (auto simp: wait_def wait_exit_def Let_def split: option.splits)
  from wait_loop_as_steps[OF l assms(2)] e assms(2) show ?thesis by simp
qed

lemma Suc_length_remove1: "x \<in> set xs \<Longrightarrow> Suc (length (remove1 x xs)) = length xs"
  by (induction xs) auto

lemma count_filter_snoc:
  "length (filter P (xs @ [x])) = length (filter P xs) + (if P x then 1 else 0)"
  by simp

lemma positive_count_has_post:
  assumes "0 < sint (mCount (sem \<sigma>))"
    "acquisitions (returned \<sigma>) \<le> posts (returned \<sigma>)"
    "mCount (sem \<sigma>) = word_of_nat (posts (returned \<sigma>)) - word_of_nat (acquisitions (returned \<sigma>))"
  shows "acquisitions (returned \<sigma>) < posts (returned \<sigma>)"
proof (rule ccontr)
  assume "\<not> acquisitions (returned \<sigma>) < posts (returned \<sigma>)"
  with assms(2) have "acquisitions (returned \<sigma>) = posts (returned \<sigma>)" by simp
  with assms(3) have "mCount (sem \<sigma>) = 0" by simp
  with assms(1) show False by simp
qed

lemma sem_inv_wait_resume:
  assumes "acquisitions (returned \<sigma>) \<le> posts (returned \<sigma>)"
    "mCount (sem \<sigma>) = word_of_nat (posts (returned \<sigma>)) - word_of_nat (acquisitions (returned \<sigma>))"
    "mWaiters (sem \<sigma>) = word_of_nat (length (blocked \<sigma>)) + 1"
  shows "sem_inv (wait_resume th b \<sigma>)"
proof (cases "sint (mCount (sem \<sigma>)) \<le> 0 \<and> b")
  case True
  with assms show ?thesis
    by (simp add: sem_inv_def wait_resume_def sem_call_def)
next
  case False
  show ?thesis
  proof (cases b)
    case True
    with False have "0 < sint (mCount (sem \<sigma>))" by simp
    from positive_count_has_post[OF this assms(1,2)] assms False True show ?thesis
      by (simp add: sem_inv_def wait_resume_def wait_exit_def sem_call_def Let_def posts_def
          acquisitions_def successful_tries_def successful_waits_def)
  next
    case b: False
    with assms False show ?thesis
      by (simp add: sem_inv_def wait_resume_def wait_exit_def sem_call_def Let_def posts_def
          acquisitions_def successful_tries_def successful_waits_def)
  qed
qed

lemma sem_inv_step: "sem_inv \<sigma> \<Longrightarrow> sem_step x \<sigma> = Some \<sigma>' \<Longrightarrow> sem_inv \<sigma>'"
proof (cases x)
  case (Post th)
  assume "sem_inv \<sigma>" "sem_step x \<sigma> = Some \<sigma>'"
  with Post show ?thesis
    by (auto simp: sem_inv_def post_def sem_call_def Let_def posts_def acquisitions_def
        successful_tries_def successful_waits_def split: if_splits)
next
  case (TryWait th)
  assume i: "sem_inv \<sigma>" and s: "sem_step x \<sigma> = Some \<sigma>'"
  show ?thesis
  proof (cases "0 < sint (mCount (sem \<sigma>))")
    case True
    from i have "acquisitions (returned \<sigma>) < posts (returned \<sigma>)"
      by (intro positive_count_has_post[OF True]) (simp_all add: sem_inv_def)
    with i s TryWait True show ?thesis
      by (auto simp: sem_inv_def tryWait_def sem_call_def Let_def posts_def acquisitions_def
          successful_tries_def successful_waits_def split: if_splits)
  next
    case False
    with i s TryWait show ?thesis
      by (auto simp: sem_inv_def tryWait_def sem_call_def Let_def posts_def acquisitions_def
          successful_tries_def successful_waits_def split: if_splits)
  qed
next
  case (WaitCall th)
  assume i: "sem_inv \<sigma>" and s: "sem_step x \<sigma> = Some \<sigma>'"
  from s WaitCall have e: "\<sigma>' = wait_resume th True (\<sigma>\<lparr>sem := wait_enter True (sem \<sigma>)\<rparr>)"
    by (auto split: if_splits)
  show ?thesis unfolding e
    by (rule sem_inv_wait_resume) (use i in \<open>simp_all add: sem_inv_def wait_enter_def sem_call_def Let_def\<close>)
next
  case (WaitWake th b)
  assume i: "sem_inv \<sigma>" and s: "sem_step x \<sigma> = Some \<sigma>'"
  from s WaitWake have m: "th \<in> set (blocked \<sigma>)"
    and e: "\<sigma>' = wait_resume th b (\<sigma>\<lparr>blocked := remove1 th (blocked \<sigma>)\<rparr>)"
    by (auto split: if_splits)
  from Suc_length_remove1[OF m]
  have l: "(word_of_nat (length (remove1 th (blocked \<sigma>))) :: cxx_int) + 1 = word_of_nat (length (blocked \<sigma>))"
    by (metis of_nat_Suc add.commute)
  show ?thesis unfolding e
    by (rule sem_inv_wait_resume) (use i l in \<open>simp_all add: sem_inv_def\<close>)
qed

lemma sem_inv_run: "sem_inv \<sigma> \<Longrightarrow> sem_run xs \<sigma> = Some \<sigma>' \<Longrightarrow> sem_inv \<sigma>'"
  by (induction xs arbitrary: \<sigma>) (auto split: option.splits dest: sem_inv_step)

lemma sem_inv_start: "sem_inv (sem_start 0)"
  by (simp add: sem_inv_def sem_start_def Semaphore_def posts_def acquisitions_def successful_tries_def successful_waits_def)

lemma sem_run_append:
  "sem_run (xs @ ys) \<sigma> = (case sem_run xs \<sigma> of None \<Rightarrow> None | Some \<sigma>' \<Rightarrow> sem_run ys \<sigma>')"
  by (induction xs arbitrary: \<sigma>) (auto split: option.splits)

lemma posts_only:
  "blocked \<sigma> = [] \<Longrightarrow>
   \<exists>\<sigma>'. sem_run (replicate n (Post th)) \<sigma> = Some \<sigma>'
      \<and> blocked \<sigma>' = []
      \<and> returned \<sigma>' = returned \<sigma> @ replicate n Posted"
proof (induction n arbitrary: \<sigma>)
  case 0
  then show ?case by simp
next
  case (Suc n)
  let ?\<sigma> = "\<sigma>\<lparr>sem := post True (sem \<sigma>), returned := returned \<sigma> @ [Posted]\<rparr>"
  from Suc.prems have "blocked ?\<sigma> = []" by simp
  from Suc.IH[OF this] Suc.prems show ?case
    by (auto simp: replicate_append_same)
qed

text \<open>
  Claim C6, as amended. From a count of zero, whatever the threads do and however their
  operations interleave, no more acquisitions have returned true (by \<open>tryWait\<close> plus by
  \<open>wait\<close>) than posts have returned, and the count is the number of posts minus the
  number of acquisitions in the arithmetic of \<open>int\<close>; so it is zero when the posts are
  matched one for one by successful waits. As long as the posts exceed the acquisitions
  by no more than \<open>INT_MAX\<close>, the count is not negative and is that difference itself.
  The number of waiters is, in the same arithmetic, the number of threads inside
  \<open>Condition::wait\<close>.
\<close>

theorem count_is_posts_minus_acquisitions:
  assumes "sem_run xs (sem_start 0) = Some \<sigma>"
  shows "successful_tries (returned \<sigma>) + successful_waits (returned \<sigma>) \<le> posts (returned \<sigma>)
    \<and> mCount (sem \<sigma>) =
        word_of_nat (posts (returned \<sigma>)
          - (successful_tries (returned \<sigma>) + successful_waits (returned \<sigma>)))
    \<and> (int (posts (returned \<sigma>))
          - (int (successful_tries (returned \<sigma>)) + int (successful_waits (returned \<sigma>))) \<le> INT_MAX
        \<longrightarrow> 0 \<le> sint (mCount (sem \<sigma>))
          \<and> sint (mCount (sem \<sigma>)) =
              int (posts (returned \<sigma>))
                - (int (successful_tries (returned \<sigma>)) + int (successful_waits (returned \<sigma>))))
    \<and> mWaiters (sem \<sigma>) = word_of_nat (length (blocked \<sigma>))
    \<and> (int (length (blocked \<sigma>)) \<le> INT_MAX \<longrightarrow> sint (mWaiters (sem \<sigma>)) = int (length (blocked \<sigma>)))
    \<and> (successful_tries (returned \<sigma>) = 0
         \<and> posts (returned \<sigma>) = successful_waits (returned \<sigma>)
        \<longrightarrow> mCount (sem \<sigma>) = 0)"
proof -
  let ?p = "posts (returned \<sigma>)"
  let ?a = "successful_tries (returned \<sigma>) + successful_waits (returned \<sigma>)"
  from sem_inv_run[OF sem_inv_start assms]
  have i: "?a \<le> ?p" "mCount (sem \<sigma>) = word_of_nat ?p - word_of_nat ?a"
    "mWaiters (sem \<sigma>) = word_of_nat (length (blocked \<sigma>))"
    by (simp_all add: sem_inv_def acquisitions_def)
  from i(1,2) have c: "mCount (sem \<sigma>) = word_of_nat (?p - ?a)"
    by (simp add: of_nat_diff)
  have r: "int ?p - int ?a \<le> INT_MAX \<longrightarrow>
      0 \<le> sint (mCount (sem \<sigma>)) \<and> sint (mCount (sem \<sigma>)) = int ?p - int ?a"
  proof
    assume "int ?p - int ?a \<le> INT_MAX"
    with i(1) have "?p - ?a \<le> 2147483647" by (simp add: INT_MAX_def)
    from sint_of_nat[OF this] i(1) c
    show "0 \<le> sint (mCount (sem \<sigma>)) \<and> sint (mCount (sem \<sigma>)) = int ?p - int ?a"
      by (simp add: of_nat_diff)
  qed
  have w: "int (length (blocked \<sigma>)) \<le> INT_MAX \<longrightarrow> sint (mWaiters (sem \<sigma>)) = int (length (blocked \<sigma>))"
    using i(3) by (simp add: INT_MAX_def sint_of_nat)
  have z: "successful_tries (returned \<sigma>) = 0 \<and> ?p = successful_waits (returned \<sigma>)
      \<longrightarrow> mCount (sem \<sigma>) = 0"
    using c by simp
  from i(1) c r i(3) w z show ?thesis
    by (simp only: of_nat_add simp_thms)
qed

theorem count_witness:
  "\<exists>\<sigma>. sem_run [WaitCall 1, WaitCall 2, Post 0, WaitWake 2 True, WaitWake 1 True, Post 0,
                 TryWait 3, WaitWake 1 False, Post 3, Post 3, WaitCall 1, TryWait 2]
          (sem_start 0) = Some \<sigma>
      \<and> posts (returned \<sigma>) = 4 \<and> successful_tries (returned \<sigma>) = 2
      \<and> successful_waits (returned \<sigma>) = 2
      \<and> mCount (sem \<sigma>) = 0 \<and> sint (mCount (sem \<sigma>)) = 0
      \<and> mWaiters (sem \<sigma>) = 0 \<and> blocked \<sigma> = []"
  using count_is_posts_minus_acquisitions
    [of "[WaitCall 1, WaitCall 2, Post 0, WaitWake 2 True, WaitWake 1 True, Post 0,
          TryWait 3, WaitWake 1 False, Post 3, Post 3, WaitCall 1, TryWait 2]"
        "the (sem_run [WaitCall 1, WaitCall 2, Post 0, WaitWake 2 True, WaitWake 1 True, Post 0,
                 TryWait 3, WaitWake 1 False, Post 3, Post 3, WaitCall 1, TryWait 2]
          (sem_start 0))"]
  by (simp add: sem_start_def Semaphore_def wait_resume_def wait_enter_def wait_exit_def
      post_def tryWait_def sem_call_def posts_def acquisitions_def successful_tries_def successful_waits_def Let_def
      INT_MAX_def)

text \<open>
  The claim as it stands, a count that never becomes negative and always equals the
  number of posts minus the number of successful acquisitions, fails once the posts
  exceed the acquisitions by more than \<open>INT_MAX\<close>: after \<open>2^31\<close> posts from a count of zero
  and no acquisition, the count is the least \<open>int\<close>.
\<close>

theorem count_wraps_counterexample:
  "\<exists>\<sigma>. sem_run (replicate (2 ^ 31) (Post 0)) (sem_start 0) = Some \<sigma>
      \<and> posts (returned \<sigma>) = 2 ^ 31
      \<and> acquisitions (returned \<sigma>) = 0
      \<and> sint (mCount (sem \<sigma>)) = - (2 ^ 31)
      \<and> sint (mCount (sem \<sigma>)) < 0"
proof -
  have "blocked (sem_start 0) = []" by (simp add: sem_start_def)
  from posts_only[OF this, of "2 ^ 31" 0] obtain \<sigma> where
    r: "sem_run (replicate (2 ^ 31) (Post 0)) (sem_start 0) = Some \<sigma>"
    and p: "returned \<sigma> = returned (sem_start 0) @ replicate (2 ^ 31) Posted"
    by blast
  from p have q: "posts (returned \<sigma>) = 2 ^ 31" "acquisitions (returned \<sigma>) = 0"
    by (simp_all add: sem_start_def posts_def acquisitions_def successful_tries_def successful_waits_def)
  from sem_inv_run[OF sem_inv_start r] q
  have "mCount (sem \<sigma>) = word_of_nat (2 ^ 31)" by (simp add: sem_inv_def)
  then have "sint (mCount (sem \<sigma>)) = - (2 ^ 31)" by simp
  with r q show ?thesis by (intro exI[of _ \<sigma>]) simp
qed

section \<open>Properties of the thread pool\<close>

subsection \<open>What a step changes\<close>

lemmas prim_defs = emit_def lock_def unlock_def wait_on_def woken_def signal_def broadcast_def
  set_running_def set_completed_def reset_task_def queue_push_def queue_pop_def set_pc_def
  set_owner_def seq_def

lemmas move_defs = push_reset_def push_enqueue_def slave_test_def take_or_wait_def
  slave_start_def slave_main_def slave_finish_def cancel_all_def drain_def owner_begin_def
  owner_wake_def owner_delete_def

lemma run_append:
  "run (ms @ ms') s = (case run ms s of None \<Rightarrow> None | Some s' \<Rightarrow> run ms' s')"
  by (induction ms arbitrary: s) (auto split: option.splits)

lemma enqueued_append: "enqueued (es @ es') = enqueued es @ enqueued es'"
  by (induction es rule: enqueued.induct) auto

lemma dequeued_append: "dequeued (es @ es') = dequeued es @ dequeued es'"
  by (induction es rule: dequeued.induct) auto

lemma enqueued_Cancel: "enqueued (map (Pair th \<circ> Cancel) ks) = []"
  by (induction ks) auto

lemma dequeued_Cancel: "dequeued (map (Pair th \<circ> Cancel) ks) = []"
  by (induction ks) auto

lemma fifo_step: "fifo s \<Longrightarrow> step m s = Some s' \<Longrightarrow> fifo s'"
  by (cases m)
     (auto simp: fifo_def prim_defs move_defs enqueued_append dequeued_append
         enqueued_Cancel dequeued_Cancel
       split: if_splits slave_pc.splits owner_pc.splits)

lemma fifo_run: "fifo s \<Longrightarrow> run ms s = Some s' \<Longrightarrow> fifo s'"
  by (induction ms arbitrary: s) (auto split: option.splits dest: fifo_step)

lemma fifo_ThreadPool: "fifo (ThreadPool n h)"
  by (simp add: fifo_def ThreadPool_def)

lemma fold_hold_Cancel: "fold hold (map Cancel ks) hs = hs"
  by (induction ks arbitrary: hs) auto

lemma step_length: "step m s = Some s' \<Longrightarrow> length (slaves s') = length (slaves s)"
  by (cases m)
     (auto simp: prim_defs move_defs split: if_splits slave_pc.splits owner_pc.splits)

lemma step_trace:
  "step m s = Some s' \<Longrightarrow> trace s' = trace s @ map (Pair (actor m)) (fresh s s')"
  by (cases m)
     (auto simp: fresh_def prim_defs move_defs comp_def
       split: if_splits slave_pc.splits owner_pc.splits outcome.splits)

lemma step_balanced: "step m s = Some s' \<Longrightarrow> fold hold (fresh s s') [] = []"
  by (cases m)
     (auto simp: fresh_def prim_defs move_defs comp_def fold_hold_Cancel
       split: if_splits slave_pc.splits owner_pc.splits outcome.splits)

lemma acts_step:
  assumes "step m s = Some s'"
  shows "acts th s' = acts th s @ (if th = actor m then fresh s s' else [])"
proof -
  have "filter (\<lambda>e. fst e = th) (map (Pair (actor m)) as) =
        (if th = actor m then map (Pair (actor m)) as else [])" for as
    by (induction as) auto
  with step_trace[OF assms] show ?thesis by (simp add: acts_def comp_def)
qed

lemma held_step:
  assumes "step m s = Some s'" "held (acts th s) = []"
  shows "held (acts th s') = []"
  using assms step_balanced[OF assms(1)] by (simp add: acts_step held_def)

lemma held_run: "run ms s = Some s' \<Longrightarrow> held (acts th s) = [] \<Longrightarrow> held (acts th s') = []"
  by (induction ms arbitrary: s) (auto split: option.splits dest: held_step)

lemma held_reachable: "run ms (ThreadPool n h) = Some s \<Longrightarrow> held (acts th s) = []"
  by (erule held_run) (simp add: ThreadPool_def acts_def held_def)

lemma step_other_pc:
  "step m s = Some s' \<Longrightarrow> actor m \<noteq> Slave i \<Longrightarrow> i < length (slaves s) \<Longrightarrow>
   pc (slaves s' ! i) = pc (slaves s ! i)"
  by (cases m)
     (auto simp: prim_defs move_defs split: if_splits slave_pc.splits owner_pc.splits)

lemma run_others:
  "run ms s = Some s' \<Longrightarrow> Slave i \<notin> actor ` set ms \<Longrightarrow> i < length (slaves s) \<Longrightarrow>
   pc (slaves s' ! i) = pc (slaves s ! i) \<and> acts (Slave i) s' = acts (Slave i) s
   \<and> length (slaves s') = length (slaves s)"
proof (induction ms arbitrary: s)
  case Nil
  then show ?case by simp
next
  case (Cons m ms)
  from Cons.prems obtain s1 where s1: "step m s = Some s1" "run ms s1 = Some s'"
    by (auto split: option.splits)
  from Cons.prems have ne: "actor m \<noteq> Slave i" "Slave i \<notin> actor ` set ms" by auto
  have l: "length (slaves s1) = length (slaves s)" by (rule step_length[OF s1(1)])
  from Cons.IH[OF s1(2) ne(2)] l Cons.prems(3)
  have "pc (slaves s' ! i) = pc (slaves s1 ! i) \<and> acts (Slave i) s' = acts (Slave i) s1
   \<and> length (slaves s') = length (slaves s1)" by simp
  with step_other_pc[OF s1(1) ne(1) Cons.prems(3)] acts_step[OF s1(1), of "Slave i"] ne(1) l
  show ?case by auto
qed

lemma take_effect:
  assumes "m = SlaveLock i \<or> m = SlaveWake i" "step m s = Some s1" "pc (slaves s1 ! i) = Dequeued t"
  shows "\<not> mCancel (slaves s ! i) \<and> mTasks s = t # mTasks s1 \<and> i < length (slaves s)
    \<and> acts (Slave i) s1 = acts (Slave i) s @
        [if m = SlaveLock i then Lock PoolObj else Woken PoolObj, Dequeue t, Unlock PoolObj]"
  using assms
  by (auto simp: acts_def prim_defs move_defs split: if_splits)

lemma start_effect:
  assumes "step (SlaveStart i) s = Some s'" "pc (slaves s ! i) = Dequeued t"
  shows "pc (slaves s' ! i) = Executing t \<and> mRunning (heap s' t)
    \<and> length (slaves s') = length (slaves s)
    \<and> acts (Slave i) s' = acts (Slave i) s @
        [Lock (TaskObj t), SetRunning t True, Broadcast (TaskObj t), Unlock (TaskObj t)]"
  using assms
  by (auto simp: acts_def prim_defs move_defs split: if_splits)

lemma main_effect:
  assumes "step (SlaveMain i out) s = Some s'" "pc (slaves s ! i) = Executing t"
  shows "pc (slaves s' ! i) = (case out of Returns \<Rightarrow> Returned t | Raises \<Rightarrow> Died)
    \<and> heap s' = heap s \<and> mTasks s' = mTasks s
    \<and> length (slaves s') = length (slaves s)
    \<and> acts (Slave i) s' = acts (Slave i) s @ [Main t]"
  using assms
  by (auto simp: acts_def prim_defs move_defs split: if_splits)

lemma finish_effect:
  assumes "i < length (slaves s)" "pc (slaves s ! i) = Returned t"
  shows "\<exists>s'. step (SlaveFinish i) s = Some s'
    \<and> pc (slaves s' ! i) = Testing \<and> \<not> mRunning (heap s' t) \<and> mCompleted (heap s' t)
    \<and> acts (Slave i) s' = acts (Slave i) s @
        [Lock (TaskObj t), SetRunning t False, SetCompleted t True,
         Broadcast (TaskObj t), Unlock (TaskObj t)]"
  using assms
  by (auto simp: acts_def prim_defs move_defs split: if_splits)

lemma step_Some_slave: "step m s = Some s' \<Longrightarrow> actor m = Slave i \<Longrightarrow> i < length (slaves s)"
  by (cases m) (auto split: if_splits)

lemmas pool_eval = prim_defs move_defs push_def ThreadPool_def idle_def reset_def ended_def acts_def
  held_def destroyed_def

lemma push_effect:
  "run [PushReset t, PushEnqueue t] s = Some (push t s)
     \<and> trace (push t s) = trace s @ map (Pair Producer)
          [Reset t, Lock PoolObj, Enqueue t, Signal PoolObj, Unlock PoolObj]
     \<and> mTasks (push t s) = mTasks s @ [t]
     \<and> \<not> mRunning (heap (push t s) t) \<and> \<not> mCompleted (heap (push t s) t)"
  by (simp add: push_def prim_defs move_defs reset_def)

lemma slave_next_move:
  assumes "step m s = Some s'" "actor m = Slave i"
  shows "case pc (slaves s ! i) of
           Testing \<Rightarrow> m = SlaveTest i
         | Locking \<Rightarrow> m = SlaveLock i
         | PoolWaiting \<Rightarrow> m = SlaveWake i
         | Dequeued t \<Rightarrow> m = SlaveStart i
         | Executing t \<Rightarrow> m = SlaveMain i Returns \<or> m = SlaveMain i Raises
         | Returned t \<Rightarrow> m = SlaveFinish i
         | Exited \<Rightarrow> False
         | Died \<Rightarrow> False"
proof (cases m)
  case (SlaveMain j out)
  with assms show ?thesis
    by (cases out) (auto split: if_splits slave_pc.splits)
qed (use assms in \<open>auto split: if_splits slave_pc.splits\<close>)

lemma died_stays:
  "run ms s = Some s' \<Longrightarrow> i < length (slaves s) \<Longrightarrow> pc (slaves s ! i) = Died \<Longrightarrow>
   pc (slaves s' ! i) = Died \<and> acts (Slave i) s' = acts (Slave i) s
   \<and> i < length (slaves s')"
proof (induction ms arbitrary: s)
  case Nil
  then show ?case by simp
next
  case (Cons m ms)
  from Cons.prems obtain s1 where s1: "step m s = Some s1" "run ms s1 = Some s'"
    by (auto split: option.splits)
  have ne: "actor m \<noteq> Slave i"
    using s1(1) Cons.prems(2,3) by (cases m) (auto split: if_splits)
  have l: "length (slaves s1) = length (slaves s)" by (rule step_length[OF s1(1)])
  have "pc (slaves s1 ! i) = Died" "acts (Slave i) s1 = acts (Slave i) s"
    using step_other_pc[OF s1(1) ne Cons.prems(2)] acts_step[OF s1(1), of "Slave i"] ne
      Cons.prems(3) by auto
  with Cons.IH[OF s1(2)] l Cons.prems(2) show ?case by simp
qed

subsection \<open>Tasks in flight\<close>

lemma TidyI:
  assumes "distinct (r @ q)"
    and "\<And>i t. i < length ps \<Longrightarrow> holds_task (ps ! i) t \<Longrightarrow> t \<notin> set (r @ q)"
    and "\<And>i t. i < length ps \<Longrightarrow> holds_task (ps ! i) t \<Longrightarrow> t \<in> P"
    and "\<And>i j t. i < length ps \<Longrightarrow> j < length ps \<Longrightarrow> holds_task (ps ! i) t \<Longrightarrow>
           holds_task (ps ! j) t \<Longrightarrow> i = j"
    and "\<And>t. t \<in> set (r @ q) \<Longrightarrow> \<not> mRunning (hp t)"
    and "\<And>t. t \<in> set (r @ q) \<Longrightarrow> \<not> mCompleted (hp t)"
    and "\<And>t. t \<in> set (r @ q) \<Longrightarrow> t \<in> P"
    and "\<And>i t. i < length ps \<Longrightarrow> ps ! i = Dequeued t \<Longrightarrow> \<not> mRunning (hp t)"
    and "\<And>i t. i < length ps \<Longrightarrow> holds_task (ps ! i) t \<Longrightarrow> \<not> mCompleted (hp t)"
    and "\<And>t. t \<in> P \<Longrightarrow> mRunning (hp t) \<Longrightarrow> \<not> mCompleted (hp t)"
  shows "Tidy r q ps hp P"
  unfolding Tidy_def
proof (intro conjI)
  show "distinct (r @ q)" by (rule assms(1))
  show "\<forall>i<length ps. \<forall>t. holds_task (ps ! i) t \<longrightarrow> t \<notin> set (r @ q) \<and> t \<in> P"
    using assms(2,3) by blast
  show "\<forall>i<length ps. \<forall>j<length ps. \<forall>t.
           holds_task (ps ! i) t \<and> holds_task (ps ! j) t \<longrightarrow> i = j"
    using assms(4) by blast
  show "\<forall>t\<in>set (r @ q). \<not> mRunning (hp t) \<and> \<not> mCompleted (hp t) \<and> t \<in> P"
    using assms(5,6,7) by blast
  show "\<forall>i<length ps. \<forall>t.
           (ps ! i = Dequeued t \<longrightarrow> \<not> mRunning (hp t) \<and> \<not> mCompleted (hp t))
           \<and> (ps ! i = Executing t \<or> ps ! i = Returned t \<longrightarrow> \<not> mCompleted (hp t))"
  proof (intro allI impI)
    fix i t assume i: "i < length ps"
    have "ps ! i = Dequeued t \<Longrightarrow> holds_task (ps ! i) t"
      "ps ! i = Executing t \<Longrightarrow> holds_task (ps ! i) t"
      "ps ! i = Returned t \<Longrightarrow> holds_task (ps ! i) t" by simp_all
    with assms(8)[OF i, of t] assms(9)[OF i, of t]
    show "(ps ! i = Dequeued t \<longrightarrow> \<not> mRunning (hp t) \<and> \<not> mCompleted (hp t))
           \<and> (ps ! i = Executing t \<or> ps ! i = Returned t \<longrightarrow> \<not> mCompleted (hp t))"
      by blast
  qed
  show "\<forall>t\<in>P. \<not> (mRunning (hp t) \<and> mCompleted (hp t))"
    using assms(10) by blast
qed

lemma TidyD:
  assumes "Tidy r q ps hp P"
  shows "distinct (r @ q)"
    and "\<And>i t. i < length ps \<Longrightarrow> holds_task (ps ! i) t \<Longrightarrow> t \<notin> set (r @ q)"
    and "\<And>i t. i < length ps \<Longrightarrow> holds_task (ps ! i) t \<Longrightarrow> t \<in> P"
    and "\<And>i j t. i < length ps \<Longrightarrow> j < length ps \<Longrightarrow> holds_task (ps ! i) t \<Longrightarrow>
           holds_task (ps ! j) t \<Longrightarrow> i = j"
    and "\<And>t. t \<in> set (r @ q) \<Longrightarrow> \<not> mRunning (hp t)"
    and "\<And>t. t \<in> set (r @ q) \<Longrightarrow> \<not> mCompleted (hp t)"
    and "\<And>t. t \<in> set (r @ q) \<Longrightarrow> t \<in> P"
    and "\<And>i t. i < length ps \<Longrightarrow> ps ! i = Dequeued t \<Longrightarrow> \<not> mRunning (hp t)"
    and "\<And>i t. i < length ps \<Longrightarrow> holds_task (ps ! i) t \<Longrightarrow> \<not> mCompleted (hp t)"
    and "\<And>t. t \<in> P \<Longrightarrow> mRunning (hp t) \<Longrightarrow> \<not> mCompleted (hp t)"
proof -
  from assms show "distinct (r @ q)" unfolding Tidy_def by blast
  from assms show "\<And>i t. i < length ps \<Longrightarrow> holds_task (ps ! i) t \<Longrightarrow> t \<notin> set (r @ q)"
    unfolding Tidy_def by blast
  from assms show "\<And>i t. i < length ps \<Longrightarrow> holds_task (ps ! i) t \<Longrightarrow> t \<in> P"
    unfolding Tidy_def by blast
  from assms show "\<And>i j t. i < length ps \<Longrightarrow> j < length ps \<Longrightarrow> holds_task (ps ! i) t \<Longrightarrow>
           holds_task (ps ! j) t \<Longrightarrow> i = j"
    unfolding Tidy_def by blast
  from assms show "\<And>t. t \<in> set (r @ q) \<Longrightarrow> \<not> mRunning (hp t)" unfolding Tidy_def by blast
  from assms show "\<And>t. t \<in> set (r @ q) \<Longrightarrow> \<not> mCompleted (hp t)" unfolding Tidy_def by blast
  from assms show "\<And>t. t \<in> set (r @ q) \<Longrightarrow> t \<in> P" unfolding Tidy_def by blast
  from assms show "\<And>i t. i < length ps \<Longrightarrow> ps ! i = Dequeued t \<Longrightarrow> \<not> mRunning (hp t)"
    unfolding Tidy_def by blast
  show "\<not> mCompleted (hp t)" if "i < length ps" "holds_task (ps ! i) t" for i t
  proof -
    from that(2) have "ps ! i = Dequeued t \<or> ps ! i = Executing t \<or> ps ! i = Returned t"
      by (cases "ps ! i") auto
    with assms that(1) show ?thesis unfolding Tidy_def by blast
  qed
  from assms show "\<And>t. t \<in> P \<Longrightarrow> mRunning (hp t) \<Longrightarrow> \<not> mCompleted (hp t)"
    unfolding Tidy_def by blast
qed

lemma holds_update:
  assumes "j < length ps" "holds_task (ps[i := p] ! j) t"
  shows "(j = i \<and> holds_task p t) \<or> (j \<noteq> i \<and> holds_task (ps ! j) t)"
  using assms by (cases "j = i") simp_all

lemma Dequeued_update:
  assumes "j < length ps" "ps[i := p] ! j = Dequeued t"
  shows "(j = i \<and> p = Dequeued t) \<or> (j \<noteq> i \<and> ps ! j = Dequeued t)"
  using assms by (cases "j = i") simp_all

lemma Tidy_reset:
  assumes T: "Tidy r q ps hp P" and n: "t \<notin> set (r @ q)"
    and h: "\<And>i. i < length ps \<Longrightarrow> \<not> holds_task (ps ! i) t"
  shows "Tidy (t # r) q ps (hp(t := reset (hp t))) (insert t P)"
proof (rule TidyI)
  note D = TidyD[OF T]
  show "distinct ((t # r) @ q)" using D(1) n by simp
  show "u \<notin> set ((t # r) @ q)" if "i < length ps" "holds_task (ps ! i) u" for i u
    using that D(2)[OF that] h[OF that(1)] by auto
  show "u \<in> insert t P" if "i < length ps" "holds_task (ps ! i) u" for i u
    using D(3)[OF that] by simp
  show "i = j" if "i < length ps" "j < length ps" "holds_task (ps ! i) u" "holds_task (ps ! j) u"
    for i j u using D(4)[OF that] .
  show "\<not> mRunning ((hp(t := reset (hp t))) u)" if "u \<in> set ((t # r) @ q)" for u
    using that D(5)[of u] by (auto simp: reset_def)
  show "\<not> mCompleted ((hp(t := reset (hp t))) u)" if "u \<in> set ((t # r) @ q)" for u
    using that D(6)[of u] by (auto simp: reset_def)
  show "u \<in> insert t P" if "u \<in> set ((t # r) @ q)" for u
    using that D(7)[of u] by auto
  show "\<not> mRunning ((hp(t := reset (hp t))) u)" if "i < length ps" "ps ! i = Dequeued u" for i u
    using D(8)[OF that] by (simp add: reset_def)
  show "\<not> mCompleted ((hp(t := reset (hp t))) u)" if "i < length ps" "holds_task (ps ! i) u" for i u
    using D(9)[OF that] by (simp add: reset_def)
  show "\<not> mCompleted ((hp(t := reset (hp t))) u)"
    if "u \<in> insert t P" "mRunning ((hp(t := reset (hp t))) u)" for u
    using that D(10)[of u] by (cases "u = t") (auto simp: reset_def)
qed

lemma Tidy_enqueue:
  assumes T: "Tidy r q ps hp P" and m: "t \<in> set r"
  shows "Tidy (remove1 t r) (q @ [t]) ps hp P"
proof (rule TidyI)
  note D = TidyD[OF T]
  have s: "set (remove1 t r @ q @ [t]) = set (r @ q)" using D(1) m by auto
  show "distinct (remove1 t r @ q @ [t])" using D(1) m by auto
  show "u \<notin> set (remove1 t r @ q @ [t])" if "i < length ps" "holds_task (ps ! i) u" for i u
    using D(2)[OF that] unfolding s .
  show "\<And>i u. i < length ps \<Longrightarrow> holds_task (ps ! i) u \<Longrightarrow> u \<in> P" by (rule D(3))
  show "\<And>i j u. i < length ps \<Longrightarrow> j < length ps \<Longrightarrow> holds_task (ps ! i) u \<Longrightarrow>
           holds_task (ps ! j) u \<Longrightarrow> i = j" by (rule D(4))
  show "\<not> mRunning (hp u)" if "u \<in> set (remove1 t r @ q @ [t])" for u
    using D(5)[of u] that unfolding s .
  show "\<not> mCompleted (hp u)" if "u \<in> set (remove1 t r @ q @ [t])" for u
    using D(6)[of u] that unfolding s .
  show "u \<in> P" if "u \<in> set (remove1 t r @ q @ [t])" for u
    using D(7)[of u] that unfolding s .
  show "\<And>i u. i < length ps \<Longrightarrow> ps ! i = Dequeued u \<Longrightarrow> \<not> mRunning (hp u)" by (rule D(8))
  show "\<And>i u. i < length ps \<Longrightarrow> holds_task (ps ! i) u \<Longrightarrow> \<not> mCompleted (hp u)" by (rule D(9))
  show "\<And>u. u \<in> P \<Longrightarrow> mRunning (hp u) \<Longrightarrow> \<not> mCompleted (hp u)" by (rule D(10))
qed

lemma Tidy_idle_pc:
  assumes T: "Tidy r q ps hp P" and n: "\<And>t. \<not> holds_task p t"
  shows "Tidy r q (ps[i := p]) hp P"
proof (rule TidyI)
  note D = TidyD[OF T]
  have old: "holds_task (ps ! j) u" if "j < length (ps[i := p])" "holds_task (ps[i := p] ! j) u"
    for j u using holds_update[of j ps i p u] that n by auto
  show "distinct (r @ q)" by (rule D(1))
  show "u \<notin> set (r @ q)" if "j < length (ps[i := p])" "holds_task (ps[i := p] ! j) u" for j u
    using D(2)[OF _ old[OF that]] that(1) by simp
  show "u \<in> P" if "j < length (ps[i := p])" "holds_task (ps[i := p] ! j) u" for j u
    using D(3)[OF _ old[OF that]] that(1) by simp
  show "j = k" if "j < length (ps[i := p])" "k < length (ps[i := p])"
    "holds_task (ps[i := p] ! j) u" "holds_task (ps[i := p] ! k) u" for j k u
    using D(4)[OF _ _ old[OF that(1,3)] old[OF that(2,4)]] that(1,2) by simp
  show "\<And>u. u \<in> set (r @ q) \<Longrightarrow> \<not> mRunning (hp u)" by (rule D(5))
  show "\<And>u. u \<in> set (r @ q) \<Longrightarrow> \<not> mCompleted (hp u)" by (rule D(6))
  show "\<And>u. u \<in> set (r @ q) \<Longrightarrow> u \<in> P" by (rule D(7))
  show "\<not> mRunning (hp u)" if "j < length (ps[i := p])" "ps[i := p] ! j = Dequeued u" for j u
  proof -
    from that have "holds_task (ps[i := p] ! j) u" by simp
    with Dequeued_update[of j ps i p u] that n[of u] have "ps ! j = Dequeued u" by auto
    with D(8)[of j u] that(1) show ?thesis by simp
  qed
  show "\<not> mCompleted (hp u)" if "j < length (ps[i := p])" "holds_task (ps[i := p] ! j) u" for j u
    using D(9)[OF _ old[OF that]] that(1) by simp
  show "\<And>u. u \<in> P \<Longrightarrow> mRunning (hp u) \<Longrightarrow> \<not> mCompleted (hp u)" by (rule D(10))
qed

lemma Tidy_dequeue:
  assumes T: "Tidy r (t # q) ps hp P" and i: "i < length ps"
    and n: "\<And>u. \<not> holds_task (ps ! i) u"
  shows "Tidy r q (ps[i := Dequeued t]) hp P"
proof (rule TidyI)
  note D = TidyD[OF T]
  let ?ps = "ps[i := Dequeued t]"
  have tq: "t \<in> set (r @ t # q)" by simp
  have cases: "(j = i \<and> u = t) \<or> (j \<noteq> i \<and> holds_task (ps ! j) u)"
    if "j < length ?ps" "holds_task (?ps ! j) u" for j u
    using holds_update[of j ps i "Dequeued t" u] that by auto
  have fresh: "\<not> holds_task (ps ! j) t" if "j < length ps" for j
    using D(2)[OF that, of t] by auto
  show "distinct (r @ q)" using D(1) by simp
  show "u \<notin> set (r @ q)" if "j < length ?ps" "holds_task (?ps ! j) u" for j u
    using cases[OF that] D(1) D(2)[of j u] that(1) by auto
  show "u \<in> P" if "j < length ?ps" "holds_task (?ps ! j) u" for j u
    using cases[OF that] D(7)[OF tq] D(3)[of j u] that(1) by auto
  show "j = k" if "j < length ?ps" "k < length ?ps" "holds_task (?ps ! j) u" "holds_task (?ps ! k) u"
    for j k u
    using cases[OF that(1,3)] cases[OF that(2,4)] D(4)[of j k u] fresh[of j] fresh[of k] that(1,2)
    by auto
  show "\<not> mRunning (hp u)" if "u \<in> set (r @ q)" for u using D(5)[of u] that by simp
  show "\<not> mCompleted (hp u)" if "u \<in> set (r @ q)" for u using D(6)[of u] that by simp
  show "u \<in> P" if "u \<in> set (r @ q)" for u using D(7)[of u] that by simp
  show "\<not> mRunning (hp u)" if "j < length ?ps" "?ps ! j = Dequeued u" for j u
    using Dequeued_update[of j ps i "Dequeued t" u] that D(5)[OF tq] D(8)[of j u] by auto
  show "\<not> mCompleted (hp u)" if "j < length ?ps" "holds_task (?ps ! j) u" for j u
    using cases[OF that] D(6)[OF tq] D(9)[of j u] that(1) by auto
  show "\<And>u. u \<in> P \<Longrightarrow> mRunning (hp u) \<Longrightarrow> \<not> mCompleted (hp u)" by (rule D(10))
qed

lemma Tidy_hold:
  assumes T: "Tidy r q ps hp P" and i: "i < length ps" and h: "holds_task (ps ! i) t"
    and p: "\<And>u. holds_task p u \<longleftrightarrow> u = t" "\<And>u. p \<noteq> Dequeued u"
    and x: "mCompleted x = mCompleted (hp t)"
  shows "Tidy r q (ps[i := p]) (hp(t := x)) P"
proof (rule TidyI)
  note D = TidyD[OF T]
  let ?ps = "ps[i := p]" and ?hp = "hp(t := x)"
  have cases: "(j = i \<and> u = t) \<or> (j \<noteq> i \<and> holds_task (ps ! j) u)"
    if "j < length ?ps" "holds_task (?ps ! j) u" for j u
    using holds_update[of j ps i p u] that p(1) by auto
  have other: "u \<noteq> t" if "j < length ps" "j \<noteq> i" "holds_task (ps ! j) u" for j u
    using D(4)[OF that(1) i, of t] that h by auto
  have nq: "t \<notin> set (r @ q)" by (rule D(2)[OF i h])
  have nc: "\<not> mCompleted x" using x D(9)[OF i h] by simp
  show "distinct (r @ q)" by (rule D(1))
  show "u \<notin> set (r @ q)" if "j < length ?ps" "holds_task (?ps ! j) u" for j u
    using cases[OF that] nq D(2)[of j u] that(1) by auto
  show "u \<in> P" if "j < length ?ps" "holds_task (?ps ! j) u" for j u
    using cases[OF that] D(3)[OF i h] D(3)[of j u] that(1) by auto
  show "j = k" if "j < length ?ps" "k < length ?ps" "holds_task (?ps ! j) u" "holds_task (?ps ! k) u"
    for j k u
    using cases[OF that(1,3)] cases[OF that(2,4)] D(4)[of j k u] other[of j u] other[of k u]
      that(1,2) by auto
  show "\<not> mRunning (?hp u)" if "u \<in> set (r @ q)" for u using D(5)[OF that] that nq by auto
  show "\<not> mCompleted (?hp u)" if "u \<in> set (r @ q)" for u using D(6)[OF that] that nq by auto
  show "\<And>u. u \<in> set (r @ q) \<Longrightarrow> u \<in> P" by (rule D(7))
  show "\<not> mRunning (?hp u)" if "j < length ?ps" "?ps ! j = Dequeued u" for j u
  proof -
    from Dequeued_update[of j ps i p u] that p(2) have j: "j \<noteq> i" "ps ! j = Dequeued u" by auto
    then have "holds_task (ps ! j) u" by simp
    with other[of j u] that(1) j(1) have "u \<noteq> t" by simp
    with D(8)[of j u] j that(1) show ?thesis by simp
  qed
  show "\<not> mCompleted (?hp u)" if "j < length ?ps" "holds_task (?ps ! j) u" for j u
    using cases[OF that] nc D(9)[of j u] that(1) by auto
  show "\<not> mCompleted (?hp u)" if "u \<in> P" "mRunning (?hp u)" for u
    using that nc D(10)[of u] by (cases "u = t") auto
qed

lemma Tidy_release:
  assumes T: "Tidy r q ps hp P" and i: "i < length ps" and h: "holds_task (ps ! i) t"
    and p: "\<And>u. \<not> holds_task p u"
    and x: "\<not> (mRunning x \<and> mCompleted x)"
  shows "Tidy r q (ps[i := p]) (hp(t := x)) P"
proof (rule TidyI)
  note D = TidyD[OF T]
  let ?ps = "ps[i := p]" and ?hp = "hp(t := x)"
  have cases: "j \<noteq> i \<and> holds_task (ps ! j) u \<and> j < length ps"
    if "j < length ?ps" "holds_task (?ps ! j) u" for j u
    using holds_update[of j ps i p u] that p by auto
  have other: "u \<noteq> t" if "j < length ps" "j \<noteq> i" "holds_task (ps ! j) u" for j u
    using D(4)[OF that(1) i, of t] that h by auto
  have nq: "t \<notin> set (r @ q)" by (rule D(2)[OF i h])
  show "distinct (r @ q)" by (rule D(1))
  show "u \<notin> set (r @ q)" if "j < length ?ps" "holds_task (?ps ! j) u" for j u
    using cases[OF that] D(2)[of j u] by auto
  show "u \<in> P" if "j < length ?ps" "holds_task (?ps ! j) u" for j u
    using cases[OF that] D(3)[of j u] by auto
  show "j = k" if "j < length ?ps" "k < length ?ps" "holds_task (?ps ! j) u" "holds_task (?ps ! k) u"
    for j k u
    using cases[OF that(1,3)] cases[OF that(2,4)] D(4)[of j k u] by auto
  show "\<not> mRunning (?hp u)" if "u \<in> set (r @ q)" for u using D(5)[OF that] that nq by auto
  show "\<not> mCompleted (?hp u)" if "u \<in> set (r @ q)" for u using D(6)[OF that] that nq by auto
  show "\<And>u. u \<in> set (r @ q) \<Longrightarrow> u \<in> P" by (rule D(7))
  show "\<not> mRunning (?hp u)" if "j < length ?ps" "?ps ! j = Dequeued u" for j u
  proof -
    from that have "holds_task (?ps ! j) u" by simp
    from cases[OF that(1) this] have j: "j \<noteq> i" "holds_task (ps ! j) u" "j < length ps" by auto
    with that have "ps ! j = Dequeued u" by simp
    with D(8)[of j u] j other[of j u] show ?thesis by simp
  qed
  show "\<not> mCompleted (?hp u)" if "j < length ?ps" "holds_task (?ps ! j) u" for j u
    using cases[OF that] D(9)[of j u] other[of j u] by auto
  show "\<not> mCompleted (?hp u)" if "u \<in> P" "mRunning (?hp u)" for u
    using that x D(10)[of u] by (cases "u = t") auto
qed

lemma Bex_set_nth: "(\<exists>x\<in>set xs. P x) \<longleftrightarrow> (\<exists>i<length xs. P (xs ! i))"
  by (metis in_set_conv_nth)

lemma in_flight_nth:
  "in_flight s t \<longleftrightarrow>
     t \<in> set (resetting s @ mTasks s)
     \<or> (\<exists>i<length (map pc (slaves s)). holds_task (map pc (slaves s) ! i) t)"
  by (auto simp: in_flight_def Bex_set_nth)

lemma pushed_step:
  assumes "step m s = Some s'"
  shows "pushed s' t \<longleftrightarrow> pushed s t \<or> m = PushReset t"
proof -
  have "Reset t \<in> set (fresh s s') \<longleftrightarrow> m = PushReset t"
    using assms
    by (cases m)
       (auto simp: fresh_def prim_defs move_defs comp_def
         split: if_splits slave_pc.splits owner_pc.splits outcome.splits)
  moreover have "m = PushReset t \<Longrightarrow> actor m = Producer" by simp
  ultimately show ?thesis
    unfolding pushed_def step_trace[OF assms] by auto
qed

lemma pushed_set_step:
  assumes "step m s = Some s'"
  shows "{t. pushed s' t} = (case m of PushReset t \<Rightarrow> insert t {t. pushed s t} | _ \<Rightarrow> {t. pushed s t})"
  using pushed_step[OF assms] by (cases m) auto

lemma map_pc_set_pc: "map pc (slaves (set_pc i p s)) = (map pc (slaves s))[i := p]"
  by (simp add: set_pc_def map_update)

lemma view_take_or_wait:
  "resetting (take_or_wait i s) = resetting s"
  "heap (take_or_wait i s) = heap s"
  "mTasks (take_or_wait i s) =
     (if mTasks s = [] \<or> mCancel (slaves s ! i) then mTasks s else tl (mTasks s))"
  "map pc (slaves (take_or_wait i s)) =
     (map pc (slaves s))
       [i := if mTasks s = [] \<and> \<not> mCancel (slaves s ! i) then PoolWaiting
             else if \<not> mCancel (slaves s ! i) then Dequeued (hd (mTasks s)) else Testing]"
  by (auto simp: take_or_wait_def prim_defs map_update)

lemma tidy_take_or_wait:
  assumes "tidy s" "i < length (slaves s)" "\<And>u. \<not> holds_task (pc (slaves s ! i)) u"
  shows "tidy (take_or_wait i (emit (Slave i) as s))"
proof -
  let ?s = "emit (Slave i) as s"
  have e: "resetting ?s = resetting s" "heap ?s = heap s" "mTasks ?s = mTasks s"
    "slaves ?s = slaves s" by (simp_all add: emit_def)
  have P: "{t. pushed (take_or_wait i ?s) t} = {t. pushed s t}"
    by (auto simp: pushed_def take_or_wait_def prim_defs)
  from assms(1) have T: "Tidy (resetting s) (mTasks s) (map pc (slaves s)) (heap s) {t. pushed s t}"
    by (simp add: tidy_def)
  show ?thesis
  proof (cases "mTasks s = [] \<or> mCancel (slaves s ! i)")
    case True
    then show ?thesis
      unfolding tidy_def P view_take_or_wait e
      using Tidy_idle_pc[OF T, of _ i] by auto
  next
    case False
    then obtain t q where q: "mTasks s = t # q" by (cases "mTasks s") auto
    from T have T': "Tidy (resetting s) (t # q) (map pc (slaves s)) (heap s) {t. pushed s t}"
      by (simp add: q)
    have "Tidy (resetting s) q ((map pc (slaves s))[i := Dequeued t]) (heap s) {t. pushed s t}"
      by (rule Tidy_dequeue[OF T']) (use assms(2,3) in simp_all)
    with False q show ?thesis
      unfolding tidy_def P view_take_or_wait e by simp
  qed
qed

lemma view_drain:
  "resetting (drain s) = resetting s" "mTasks (drain s) = mTasks s"
  "map pc (slaves (drain s)) = map pc (slaves s)" "heap (drain s) = heap s"
  by (auto simp: drain_def cancel_all_def prim_defs comp_def)

lemma fun_upd_self: "f(t := f t) = f"
  by simp

lemma tidy_step:
  assumes t: "tidy s" and st: "step m s = Some s'"
    and ok: "\<And>u. m = PushReset u \<Longrightarrow> \<not> in_flight s u"
  shows "tidy s'"
proof -
  have Pr: "{t. pushed s' t} = insert u {t. pushed s t}" if "m = PushReset u" for u
    using pushed_set_step[OF st] that by simp
  have Pn: "{t. pushed s' t} = {t. pushed s t}" if "\<And>u. m \<noteq> PushReset u"
    using pushed_set_step[OF st] that by (cases m) auto
  from t have T: "Tidy (resetting s) (mTasks s) (map pc (slaves s)) (heap s) {t. pushed s t}"
    by (simp add: tidy_def)
  note D = TidyD[OF T]
  show ?thesis
  proof (cases m)
    case (PushReset u)
    with st have s': "s' = push_reset u s" by simp
    from ok[OF PushReset] have n: "u \<notin> set (resetting s @ mTasks s)"
      "\<And>i. i < length (map pc (slaves s)) \<Longrightarrow> \<not> holds_task (map pc (slaves s) ! i) u"
      unfolding in_flight_nth by blast+
    from Tidy_reset[OF T n] show ?thesis
      unfolding tidy_def Pr[OF PushReset] unfolding s' by (simp add: push_reset_def prim_defs)
  next
    case (PushEnqueue u)
    then have P0: "{t. pushed s' t} = {t. pushed s t}" by (intro Pn) simp
    from st PushEnqueue have s': "s' = push_enqueue u s" and u: "u \<in> set (resetting s)"
      by (auto split: if_splits)
    from Tidy_enqueue[OF T u] show ?thesis
      unfolding tidy_def P0 unfolding s' by (simp add: push_enqueue_def prim_defs)
  next
    case (SlaveTest i)
    then have P0: "{t. pushed s' t} = {t. pushed s t}" by (intro Pn) simp
    from st SlaveTest have s': "s' = slave_test i s" by (auto split: if_splits)
    have "Tidy (resetting s) (mTasks s) ((map pc (slaves s))[i := p]) (heap s) {t. pushed s t}"
      if "p = Locking \<or> p = Exited" for p
      by (rule Tidy_idle_pc[OF T]) (use that in auto)
    then show ?thesis
      unfolding tidy_def P0 unfolding s' by (simp add: slave_test_def prim_defs map_update)
  next
    case (SlaveLock i)
    with st have s': "s' = take_or_wait i (emit (Slave i) [Lock PoolObj] s)"
      and i: "i < length (slaves s)" "pc (slaves s ! i) = Locking"
      by (auto simp: seq_def lock_def split: if_splits)
    show ?thesis unfolding s'
      by (rule tidy_take_or_wait[OF t i(1)]) (simp add: i(2))
  next
    case (SlaveWake i)
    with st have s': "s' = take_or_wait i (emit (Slave i) [Woken PoolObj] s)"
      and i: "i < length (slaves s)" "pc (slaves s ! i) = PoolWaiting"
      by (auto simp: seq_def woken_def split: if_splits)
    show ?thesis unfolding s'
      by (rule tidy_take_or_wait[OF t i(1)]) (simp add: i(2))
  next
    case (SlaveStart i)
    then have P0: "{t. pushed s' t} = {t. pushed s t}" by (intro Pn) simp
    from st SlaveStart obtain u where i: "i < length (slaves s)" "pc (slaves s ! i) = Dequeued u"
      and s': "s' = slave_start i u s"
      by (auto split: if_splits slave_pc.splits)
    have "Tidy (resetting s) (mTasks s) ((map pc (slaves s))[i := Executing u])
            ((heap s)(u := (heap s u)\<lparr>mRunning := True\<rparr>)) {t. pushed s t}"
      by (rule Tidy_hold[OF T]) (use i in auto)
    then show ?thesis
      unfolding tidy_def P0 unfolding s' by (simp add: slave_start_def prim_defs map_update)
  next
    case (SlaveMain i out)
    then have P0: "{t. pushed s' t} = {t. pushed s t}" by (intro Pn) simp
    from st SlaveMain obtain u where i: "i < length (slaves s)" "pc (slaves s ! i) = Executing u"
      and s': "s' = slave_main i u out s"
      by (auto split: if_splits slave_pc.splits)
    have nc: "\<not> mCompleted (heap s u)" using D(9)[of i u] i by simp
    have a: "Tidy (resetting s) (mTasks s) ((map pc (slaves s))[i := Returned u])
            ((heap s)(u := heap s u)) {t. pushed s t}"
      by (rule Tidy_hold[OF T]) (use i in auto)
    have b: "Tidy (resetting s) (mTasks s) ((map pc (slaves s))[i := Died])
            ((heap s)(u := heap s u)) {t. pushed s t}"
      by (rule Tidy_release[OF T]) (use i nc in auto)
    from a b show ?thesis
      unfolding tidy_def P0 unfolding s' fun_upd_self
      by (cases out) (simp_all add: slave_main_def prim_defs map_update)
  next
    case (SlaveFinish i)
    then have P0: "{t. pushed s' t} = {t. pushed s t}" by (intro Pn) simp
    from st SlaveFinish obtain u where i: "i < length (slaves s)" "pc (slaves s ! i) = Returned u"
      and s': "s' = slave_finish i u s"
      by (auto split: if_splits slave_pc.splits)
    have "Tidy (resetting s) (mTasks s) ((map pc (slaves s))[i := Testing])
            ((heap s)(u := (heap s u)\<lparr>mRunning := False, mCompleted := True\<rparr>)) {t. pushed s t}"
      by (rule Tidy_release[OF T]) (use i in auto)
    then show ?thesis
      unfolding tidy_def P0 unfolding s' by (simp add: slave_finish_def prim_defs map_update)
  next
    case OwnerBegin
    then have P0: "{t. pushed s' t} = {t. pushed s t}" by (intro Pn) simp
    from st OwnerBegin have s': "s' = owner_begin s" by (auto split: if_splits)
    from T show ?thesis
      unfolding tidy_def P0 unfolding s'
      by (simp add: owner_begin_def seq_def lock_def emit_def view_drain)
  next
    case OwnerWake
    then have P0: "{t. pushed s' t} = {t. pushed s t}" by (intro Pn) simp
    from st OwnerWake obtain u where s': "s' = owner_wake u s" by (auto split: owner_pc.splits)
    from T show ?thesis
      unfolding tidy_def P0 unfolding s'
      by (simp add: owner_wake_def seq_def lock_def unlock_def woken_def emit_def view_drain)
  next
    case OwnerDelete
    then have P0: "{t. pushed s' t} = {t. pushed s t}" by (intro Pn) simp
    from st OwnerDelete obtain k where s': "s' = owner_delete k s" by (auto split: owner_pc.splits if_splits)
    from T show ?thesis
      unfolding tidy_def P0 unfolding s' by (simp add: move_defs prim_defs comp_def)
  qed
qed

lemma tidy_run: "tidy s \<Longrightarrow> run ms s = Some s' \<Longrightarrow> well_used ms s \<Longrightarrow> tidy s'"
proof (induction ms arbitrary: s)
  case Nil
  then show ?case by simp
next
  case (Cons m ms)
  from Cons.prems(2) obtain s1 where s1: "step m s = Some s1" "run ms s1 = Some s'"
    by (auto split: option.splits)
  from Cons.prems(3) s1(1) have w: "well_used ms s1" "\<And>u. m = PushReset u \<Longrightarrow> \<not> in_flight s u"
    by auto
  from tidy_step[OF Cons.prems(1) s1(1) w(2)] have "tidy s1" .
  from Cons.IH[OF this s1(2) w(1)] show ?case .
qed

lemma tidy_ThreadPool: "tidy (ThreadPool n h)"
  unfolding tidy_def
  by (rule TidyI) (auto simp: ThreadPool_def pushed_def)

lemmas use_eval = in_flight_def pushed_def

subsection \<open>The destructor\<close>

lemma drain_waits:
  assumes "mTasks s \<noteq> []"
  shows "(owner s = Alive \<longrightarrow>
           (\<exists>s'. step OwnerBegin s = Some s'
              \<and> fresh s s' = [Lock PoolObj, Lock (TaskObj (last (mTasks s))), Unlock PoolObj,
                              Wait (TaskObj (last (mTasks s)))]
              \<and> owner s' = Draining (last (mTasks s))
              \<and> slaves s' = slaves s \<and> mTasks s' = mTasks s \<and> heap s' = heap s))
       \<and> (owner s = Draining t \<longrightarrow>
           (\<exists>s'. step OwnerWake s = Some s'
              \<and> fresh s s' = [Woken (TaskObj t), Unlock (TaskObj t), Lock PoolObj,
                              Lock (TaskObj (last (mTasks s))), Unlock PoolObj,
                              Wait (TaskObj (last (mTasks s)))]
              \<and> owner s' = Draining (last (mTasks s))
              \<and> slaves s' = slaves s \<and> mTasks s' = mTasks s \<and> heap s' = heap s))"
  using assms by (simp add: move_defs prim_defs fresh_def)

lemma drain_cancels:
  assumes "mTasks s = []"
  shows "(owner s = Alive \<longrightarrow>
           (\<exists>s'. step OwnerBegin s = Some s'
              \<and> fresh s s' = [Lock PoolObj] @ map Cancel [0..<length (slaves s)]
                              @ [Broadcast PoolObj, Unlock PoolObj]
              \<and> owner s' = Deleting 0
              \<and> slaves s' = cancelling (slaves s) \<and> mTasks s' = [] \<and> heap s' = heap s))
       \<and> (owner s = Draining t \<longrightarrow>
           (\<exists>s'. step OwnerWake s = Some s'
              \<and> fresh s s' = [Woken (TaskObj t), Unlock (TaskObj t), Lock PoolObj]
                              @ map Cancel [0..<length (slaves s)]
                              @ [Broadcast PoolObj, Unlock PoolObj]
              \<and> owner s' = Deleting 0
              \<and> slaves s' = cancelling (slaves s) \<and> mTasks s' = [] \<and> heap s' = heap s))"
  using assms by (simp add: move_defs prim_defs fresh_def cancelling_def comp_def)

lemma cancelling_props:
  "length (cancelling sls) = length sls" "map pc (cancelling sls) = map pc sls"
  "\<forall>sl\<in>set (cancelling sls). mCancel sl"
  by (simp_all add: cancelling_def comp_def)

lemma leaves_drain_only_when_empty:
  assumes "step m s = Some s'" "draining s" "\<not> draining s'"
  shows "mTasks s = [] \<and> mTasks s' = [] \<and> owner s' = Deleting 0 \<and> (m = OwnerBegin \<or> m = OwnerWake)"
  using assms
  by (cases m)
     (auto simp: draining_def move_defs prim_defs
       split: if_splits slave_pc.splits owner_pc.splits outcome.splits)

lemma draining_back:
  "step m s = Some s' \<Longrightarrow> draining s' \<Longrightarrow> draining s"
  by (cases m)
     (auto simp: draining_def move_defs prim_defs
       split: if_splits slave_pc.splits owner_pc.splits)

lemma draining_no_Cancel:
  "step m s = Some s' \<Longrightarrow> draining s' \<Longrightarrow> Cancel i \<notin> set (fresh s s')"
  by (cases m)
     (auto simp: draining_def fresh_def move_defs prim_defs
       split: if_splits slave_pc.splits owner_pc.splits outcome.splits)

lemma map_mCancel_pc_update:
  "map mCancel (sls[i := (sls ! i)\<lparr>pc := p\<rparr>]) = map mCancel sls"
  by (cases "i < length sls") (auto simp: list_eq_iff_nth_eq nth_list_update)

lemma draining_mCancel:
  "step m s = Some s' \<Longrightarrow> draining s' \<Longrightarrow> map mCancel (slaves s') = map mCancel (slaves s)"
  by (cases m)
     (auto simp: draining_def move_defs prim_defs map_mCancel_pc_update
       split: if_splits slave_pc.splits owner_pc.splits outcome.splits)

lemma uncancelled_step:
  assumes "step m s = Some s'" "draining s \<longrightarrow> uncancelled s"
  shows "draining s' \<longrightarrow> uncancelled s'"
proof (cases "draining s'")
  case False then show ?thesis by simp
next
  case True
  with assms draining_back[OF assms(1)] have u: "uncancelled s" by simp
  note f = draining_no_Cancel[OF assms(1) True]
  note c = draining_mCancel[OF assms(1) True]
  have "(\<forall>sl\<in>set (slaves s'). \<not> mCancel sl) \<longleftrightarrow> (\<forall>b\<in>set (map mCancel (slaves s')). \<not> b)"
    by simp
  also have "\<dots> \<longleftrightarrow> (\<forall>sl\<in>set (slaves s). \<not> mCancel sl)" unfolding c by simp
  finally show ?thesis using u f by (simp add: uncancelled_def acts_step[OF assms(1)])
qed

lemma uncancelled_run:
  "run ms s = Some s' \<Longrightarrow> draining s \<longrightarrow> uncancelled s \<Longrightarrow> draining s' \<longrightarrow> uncancelled s'"
  by (induction ms arbitrary: s) (auto split: option.splits dest: uncancelled_step)

lemma uncancelled_ThreadPool: "draining (ThreadPool n h) \<and> uncancelled (ThreadPool n h)"
  by (simp add: draining_def uncancelled_def ThreadPool_def acts_def)

lemma goes_on_after_cancel:
  assumes "i < length (slaves s)" "pc (slaves s ! i) = Dequeued t"
  shows "\<exists>s'. run [SlaveStart i, SlaveMain i Returns, SlaveFinish i, SlaveTest i] s = Some s'
     \<and> \<not> mRunning (heap s' t) \<and> mCompleted (heap s' t)
     \<and> pc (slaves s' ! i) = (if mCancel (slaves s ! i) then Exited else Locking)
     \<and> fresh s s' = [Lock (TaskObj t), SetRunning t True, Broadcast (TaskObj t), Unlock (TaskObj t),
          Main t, Lock (TaskObj t), SetRunning t False, SetCompleted t True,
          Broadcast (TaskObj t), Unlock (TaskObj t)]"
  using assms by (simp add: move_defs prim_defs fresh_def)

subsection \<open>What the destructor leaves behind\<close>

lemma filter_update_length:
  "i < length xs \<Longrightarrow>
   length (filter P (xs[i := y])) + (if P (xs ! i) then 1 else 0) =
   length (filter P xs) + (if P y then 1 else 0)"
proof (induction xs arbitrary: i)
  case Nil
  then show ?case by simp
next
  case (Cons a xs)
  show ?case
  proof (cases i)
    case 0
    then show ?thesis by simp
  next
    case (Suc j)
    with Cons.prems have "j < length xs" by simp
    from Cons.IH[OF this] Suc show ?thesis by simp
  qed
qed

lemma tally_step:
  assumes "step m s = Some s'"
  shows "tally a s' = tally a s + count_list (fresh s s') a"
proof -
  from step_trace[OF assms] have "map snd (trace s') = map snd (trace s) @ fresh s s'"
    by (simp add: comp_def)
  then show ?thesis by (simp add: tally_def)
qed

text \<open>The places of the slaves after a step: one slave has moved, or none.\<close>

lemma step_places:
  assumes "step m s = Some s'"
  shows "(\<exists>i. actor m = Slave i \<and> i < length (slaves s)
            \<and> map pc (slaves s') = (map pc (slaves s))[i := pc (slaves s' ! i)])
       \<or> (\<forall>i. actor m \<noteq> Slave i) \<and> map pc (slaves s') = map pc (slaves s)"
  using assms
  by (cases m)
     (auto simp: prim_defs move_defs map_update comp_def split: if_splits slave_pc.splits owner_pc.splits outcome.splits)


lemma count_list_Cancel:
  "count_list (map Cancel ks) (Dequeue t) = 0" "count_list (map Cancel ks) (Main t) = 0"
  "count_list (map Cancel ks) (SetCompleted t b) = 0"
  by (induction ks) auto

lemma slave_step_counts:
  assumes "step m s = Some s'" "actor m = Slave i"
  shows "count_list (fresh s s') (Dequeue t)
           + (if pc (slaves s ! i) = Dequeued t \<or> pc (slaves s ! i) = Executing t then 1 else 0) =
         count_list (fresh s s') (Main t)
           + (if pc (slaves s' ! i) = Dequeued t \<or> pc (slaves s' ! i) = Executing t then 1 else 0)"
    and "pc (slaves s' ! i) \<noteq> Died \<Longrightarrow>
         count_list (fresh s s') (Main t) + (if pc (slaves s ! i) = Returned t then 1 else 0) =
         count_list (fresh s s') (SetCompleted t True)
           + (if pc (slaves s' ! i) = Returned t then 1 else 0)"
  using assms
  by (cases m;
      auto simp: fresh_def prim_defs move_defs split: if_splits slave_pc.splits outcome.splits)+

lemma other_step_counts:
  assumes "step m s = Some s'" "\<forall>i. actor m \<noteq> Slave i"
  shows "count_list (fresh s s') (Dequeue t) = 0" "count_list (fresh s s') (Main t) = 0"
    "count_list (fresh s s') (SetCompleted t b) = 0"
  using assms
  by (cases m;
      auto simp: fresh_def prim_defs move_defs comp_def count_list_Cancel
        split: if_splits owner_pc.splits)+

lemma matched_step:
  assumes M: "matched s" and st: "step m s = Some s'"
  shows "matched s'"
  unfolding matched_def
proof
  fix t
  let ?P = "\<lambda>p. p = Dequeued t \<or> p = Executing t"
  from M have e: "tally (Dequeue t) s = tally (Main t) s + starting t s"
    by (simp add: matched_def)
  note T = tally_step[OF st]
  from step_places[OF st]
  show "tally (Dequeue t) s' = tally (Main t) s' + starting t s'"
  proof
    assume "\<exists>i. actor m = Slave i \<and> i < length (slaves s)
            \<and> map pc (slaves s') = (map pc (slaves s))[i := pc (slaves s' ! i)]"
    then obtain i where i: "actor m = Slave i" "i < length (slaves s)"
      "map pc (slaves s') = (map pc (slaves s))[i := pc (slaves s' ! i)]" by blast
    from filter_update_length[of i "map pc (slaves s)" ?P "pc (slaves s' ! i)"] i(2)
    have "starting t s' + (if ?P (pc (slaves s ! i)) then 1 else 0) =
          starting t s + (if ?P (pc (slaves s' ! i)) then 1 else 0)"
      unfolding starting_def i(3) by simp
    with slave_step_counts(1)[OF st i(1), of t] e show ?thesis
      unfolding T by (simp split: if_splits)
  next
    assume a: "(\<forall>i. actor m \<noteq> Slave i) \<and> map pc (slaves s') = map pc (slaves s)"
    then have "starting t s' = starting t s" by (simp add: starting_def)
    with other_step_counts(1,2)[OF st, of t] a e show ?thesis
      unfolding T by simp
  qed
qed

lemma not_Died_back:
  assumes st: "step m s = Some s'" and n: "\<forall>sl\<in>set (slaves s'). pc sl \<noteq> Died"
  shows "\<forall>sl\<in>set (slaves s). pc sl \<noteq> Died"
proof -
  have "pc (slaves s ! j) \<noteq> Died" if j: "j < length (slaves s)" for j
  proof (cases "actor m = Slave j")
    case True
    from slave_next_move[OF st True] show ?thesis by (auto split: slave_pc.splits)
  next
    case False
    from step_other_pc[OF st False j] step_length[OF st] n j show ?thesis
      by (metis nth_mem)
  qed
  then show ?thesis by (auto simp: in_set_conv_nth)
qed

lemma concluded_step:
  assumes C: "concluded s" and st: "step m s = Some s'"
  shows "concluded s'"
  unfolding concluded_def
proof (intro impI allI)
  fix t
  let ?P = "\<lambda>p. p = Returned t"
  assume n: "\<forall>sl\<in>set (slaves s'). pc sl \<noteq> Died"
  from C not_Died_back[OF st n]
  have e: "tally (Main t) s = tally (SetCompleted t True) s + finishing t s"
    by (simp add: concluded_def)
  note T = tally_step[OF st]
  from step_places[OF st]
  show "tally (Main t) s' = tally (SetCompleted t True) s' + finishing t s'"
  proof
    assume "\<exists>i. actor m = Slave i \<and> i < length (slaves s)
            \<and> map pc (slaves s') = (map pc (slaves s))[i := pc (slaves s' ! i)]"
    then obtain i where i: "actor m = Slave i" "i < length (slaves s)"
      "map pc (slaves s') = (map pc (slaves s))[i := pc (slaves s' ! i)]" by blast
    from i(2) step_length[OF st] n have d: "pc (slaves s' ! i) \<noteq> Died" by simp
    from filter_update_length[of i "map pc (slaves s)" ?P "pc (slaves s' ! i)"] i(2)
    have "finishing t s' + (if ?P (pc (slaves s ! i)) then 1 else 0) =
          finishing t s + (if ?P (pc (slaves s' ! i)) then 1 else 0)"
      unfolding finishing_def i(3) by simp
    with slave_step_counts(2)[OF st i(1) d, of t] e show ?thesis
      unfolding T by (simp split: if_splits)
  next
    assume a: "(\<forall>i. actor m \<noteq> Slave i) \<and> map pc (slaves s') = map pc (slaves s)"
    then have "finishing t s' = finishing t s" by (simp add: finishing_def)
    with other_step_counts(2)[OF st, of t] other_step_counts(3)[OF st, of t True] a e show ?thesis
      unfolding T by simp
  qed
qed

lemma ended_stays:
  assumes st: "step m s = Some s'" and i: "i < length (slaves s)"
    and e: "pc (slaves s ! i) = Exited \<or> pc (slaves s ! i) = Died"
  shows "pc (slaves s' ! i) = pc (slaves s ! i)"
proof (cases "actor m = Slave i")
  case True
  from slave_next_move[OF st True] e show ?thesis by (auto split: slave_pc.splits)
next
  case False
  from step_other_pc[OF st False i] show ?thesis .
qed

lemma joined_step:
  assumes J: "joined s" and st: "step m s = Some s'"
  shows "joined s'"
  unfolding joined_def
proof (intro allI impI)
  fix k
  assume o: "owner s' = Deleting k"
  note l = step_length[OF st]
  show "k \<le> length (slaves s') \<and> (\<forall>i<k. pc (slaves s' ! i) = Exited \<or> pc (slaves s' ! i) = Died)"
  proof (cases "owner s = Deleting k")
    case True
    with J have k: "k \<le> length (slaves s)"
      and a: "\<forall>i<k. pc (slaves s ! i) = Exited \<or> pc (slaves s ! i) = Died"
      by (simp_all add: joined_def)
    have "pc (slaves s' ! i) = Exited \<or> pc (slaves s' ! i) = Died" if "i < k" for i
    proof -
      from that k have i: "i < length (slaves s)" by simp
      from a that have e: "pc (slaves s ! i) = Exited \<or> pc (slaves s ! i) = Died" by simp
      from ended_stays[OF st i e] e show ?thesis by simp
    qed
    with k l show ?thesis by simp
  next
    case False
    with st o have c: "k = 0 \<or> (\<exists>j. k = Suc j \<and> m = OwnerDelete \<and> owner s = Deleting j
        \<and> j < length (slaves s) \<and> (pc (slaves s ! j) = Exited \<or> pc (slaves s ! j) = Died)
        \<and> slaves s' = slaves s)"
      by (cases m)
         (auto simp: prim_defs move_defs ended_def
           split: if_splits slave_pc.splits owner_pc.splits outcome.splits)
    show ?thesis
    proof (cases "k = 0")
      case True
      then show ?thesis by simp
    next
      case f: False
      with c obtain j where j: "k = Suc j" "owner s = Deleting j" "j < length (slaves s)"
        "pc (slaves s ! j) = Exited \<or> pc (slaves s ! j) = Died" "slaves s' = slaves s" by blast
      from J j(2) have "\<forall>i<j. pc (slaves s ! i) = Exited \<or> pc (slaves s ! i) = Died"
        by (simp add: joined_def)
      with j show ?thesis by (auto simp: less_Suc_eq)
    qed
  qed
qed


lemma matched_run: "matched s \<Longrightarrow> run ms s = Some s' \<Longrightarrow> matched s'"
  by (induction ms arbitrary: s) (auto split: option.splits dest: matched_step)

lemma concluded_run: "concluded s \<Longrightarrow> run ms s = Some s' \<Longrightarrow> concluded s'"
  by (induction ms arbitrary: s) (auto split: option.splits dest: concluded_step)

lemma joined_run: "joined s \<Longrightarrow> run ms s = Some s' \<Longrightarrow> joined s'"
  by (induction ms arbitrary: s) (auto split: option.splits dest: joined_step)

lemma counts_ThreadPool:
  "matched (ThreadPool n h)" "concluded (ThreadPool n h)" "joined (ThreadPool n h)"
  by (simp_all add: matched_def concluded_def joined_def tally_def starting_def finishing_def
      ThreadPool_def)

lemma count_dequeued: "count_list (dequeued tr) t = count_list (map snd tr) (Dequeue t)"
  by (induction tr rule: dequeued.induct) auto

lemma count_enqueued: "count_list (enqueued tr) t = count_list (map snd tr) (Enqueue t)"
  by (induction tr rule: enqueued.induct) auto

lemma all_ended_counts:
  assumes "\<forall>sl\<in>set (slaves s). pc sl = Exited \<or> pc sl = Died"
  shows "starting t s = 0" "finishing t s = 0"
  using assms by (auto simp: starting_def finishing_def filter_empty_conv)

text \<open>After the loop: the slaves stay cancelled, and nothing is dequeued.\<close>

lemma after_loop_step:
  assumes st: "step m s = Some s'" and d: "\<not> draining s" and c: "\<forall>sl\<in>set (slaves s). mCancel sl"
  shows "\<not> draining s'" "\<forall>sl\<in>set (slaves s'). mCancel sl"
    "dequeued (trace s') = dequeued (trace s)"
    "mTasks s' = mTasks s \<or> (\<exists>t. m = PushEnqueue t \<and> mTasks s' = mTasks s @ [t])"
proof -
  from c have ci: "\<And>i. i < length (slaves s) \<Longrightarrow> mCancel (slaves s ! i)" by simp
  from draining_back[OF st] d show "\<not> draining s'" by blast
  have k: "map mCancel (slaves s') = map mCancel (slaves s)"
    using st d
    by (cases m)
       (auto simp: draining_def prim_defs move_defs map_mCancel_pc_update
         split: if_splits slave_pc.splits owner_pc.splits outcome.splits)
  have "(\<forall>sl\<in>set (slaves s'). mCancel sl) \<longleftrightarrow> (\<forall>b\<in>set (map mCancel (slaves s')). b)"
    by simp
  also have "\<dots> \<longleftrightarrow> (\<forall>sl\<in>set (slaves s). mCancel sl)" unfolding k by simp
  finally show "\<forall>sl\<in>set (slaves s'). mCancel sl" using c by simp
  show "dequeued (trace s') = dequeued (trace s)"
    using st d ci
    by (cases m)
       (auto simp: draining_def prim_defs move_defs dequeued_append
         split: if_splits slave_pc.splits owner_pc.splits outcome.splits)
  show "mTasks s' = mTasks s \<or> (\<exists>t. m = PushEnqueue t \<and> mTasks s' = mTasks s @ [t])"
    using st d ci
    by (cases m)
       (auto simp: draining_def prim_defs move_defs
         split: if_splits slave_pc.splits owner_pc.splits outcome.splits)
qed

lemma after_loop_run:
  "run ms s = Some s' \<Longrightarrow> \<not> draining s \<Longrightarrow> \<forall>sl\<in>set (slaves s). mCancel sl \<Longrightarrow>
   \<not> draining s' \<and> (\<forall>sl\<in>set (slaves s'). mCancel sl) \<and> dequeued (trace s') = dequeued (trace s)"
proof (induction ms arbitrary: s)
  case Nil
  then show ?case by simp
next
  case (Cons m ms)
  from Cons.prems(1) obtain s1 where s1: "step m s = Some s1" "run ms s1 = Some s'"
    by (auto split: option.splits)
  note a = after_loop_step[OF s1(1) Cons.prems(2,3)]
  from Cons.IH[OF s1(2) a(1,2)] a(3) show ?case by simp
qed

lemma cancelled_slave_ends:
  assumes "i < length (slaves s)" "mCancel (slaves s ! i)"
  shows "(pc (slaves s ! i) = Testing \<longrightarrow>
           (\<exists>s'. step (SlaveTest i) s = Some s' \<and> pc (slaves s' ! i) = Exited
              \<and> fresh s s' = [] \<and> mTasks s' = mTasks s \<and> heap s' = heap s))
       \<and> (pc (slaves s ! i) = Locking \<longrightarrow>
           (\<exists>s'. run [SlaveLock i, SlaveTest i] s = Some s' \<and> pc (slaves s' ! i) = Exited
              \<and> fresh s s' = [Lock PoolObj, Unlock PoolObj]
              \<and> mTasks s' = mTasks s \<and> heap s' = heap s))
       \<and> (pc (slaves s ! i) = PoolWaiting \<longrightarrow>
           (\<exists>s'. run [SlaveWake i, SlaveTest i] s = Some s' \<and> pc (slaves s' ! i) = Exited
              \<and> fresh s s' = [Woken PoolObj, Unlock PoolObj]
              \<and> mTasks s' = mTasks s \<and> heap s' = heap s))"
  using assms by (simp add: move_defs prim_defs fresh_def)

lemma delete_explicit:
  "step OwnerDelete s = Some s' \<longleftrightarrow>
     (\<exists>k. owner s = Deleting k \<and> k < length (slaves s)
         \<and> (pc (slaves s ! k) = Exited \<or> pc (slaves s ! k) = Died)
         \<and> s' = s\<lparr>owner := Deleting (Suc k), trace := trace s @ [(Owner, Delete k)]\<rparr>)"
  by (auto simp: move_defs prim_defs ended_def split: owner_pc.splits)

lemma after_destructor:
  assumes r: "run ms (ThreadPool n h) = Some s" and st: "step m s = Some s1"
    and d: "draining s" "\<not> draining s1" and r2: "run ms' s1 = Some s2"
  shows "(\<forall>sl\<in>set (slaves s2). mCancel sl)
      \<and> dequeued (trace s2) = enqueued (trace s1)
      \<and> enqueued (trace s2) = enqueued (trace s1) @ mTasks s2
      \<and> (destroyed s2 \<longrightarrow>
            (\<forall>sl\<in>set (slaves s2). pc sl = Exited \<or> pc sl = Died)
          \<and> (\<forall>t. tally (Main t) s2 = tally (Enqueue t) s1)
          \<and> ((\<forall>sl\<in>set (slaves s2). pc sl = Exited) \<longrightarrow>
                (\<forall>t. tally (SetCompleted t True) s2 = tally (Enqueue t) s1)))"
proof -
  note l = leaves_drain_only_when_empty[OF st d]
  have r1: "run (ms @ [m]) (ThreadPool n h) = Some s1" using r st by (simp add: run_append)
  have r3: "run ((ms @ [m]) @ ms') (ThreadPool n h) = Some s2"
    using r1 r2 by (simp only: run_append option.case)
  from fifo_run[OF fifo_ThreadPool r1] l have f1: "dequeued (trace s1) = enqueued (trace s1)"
    by (simp add: fifo_def)
  from fifo_run[OF fifo_ThreadPool r3]
  have f2: "dequeued (trace s2) @ mTasks s2 = enqueued (trace s2)" by (simp add: fifo_def)
  from d(1) have o: "owner s = Alive \<or> (\<exists>t. owner s = Draining t)"
    by (cases "owner s") (auto simp: draining_def)
  from l have e: "mTasks s = []" by simp
  from o drain_cancels[OF e] st l have "slaves s1 = cancelling (slaves s)" by auto
  with cancelling_props(3)[of "slaves s"] have c1: "\<forall>sl\<in>set (slaves s1). mCancel sl" by simp
  note a = after_loop_run[OF r2 d(2) c1]
  from a f1 have dq: "dequeued (trace s2) = enqueued (trace s1)" by simp
  have fin: "(\<forall>sl\<in>set (slaves s2). pc sl = Exited \<or> pc sl = Died)
          \<and> (\<forall>t. tally (Main t) s2 = tally (Enqueue t) s1)
          \<and> ((\<forall>sl\<in>set (slaves s2). pc sl = Exited) \<longrightarrow>
                (\<forall>t. tally (SetCompleted t True) s2 = tally (Enqueue t) s1))"
    if ds: "destroyed s2"
  proof -
    from joined_run[OF counts_ThreadPool(3) r3] ds
    have "\<forall>i<length (slaves s2). pc (slaves s2 ! i) = Exited \<or> pc (slaves s2 ! i) = Died"
      by (simp add: joined_def destroyed_def)
    then have en: "\<forall>sl\<in>set (slaves s2). pc sl = Exited \<or> pc sl = Died"
      by (auto simp: in_set_conv_nth)
    have m: "tally (Main t) s2 = tally (Enqueue t) s1" for t
    proof -
      from matched_run[OF counts_ThreadPool(1) r3] all_ended_counts(1)[OF en]
      have "tally (Dequeue t) s2 = tally (Main t) s2" by (simp add: matched_def)
      moreover have "tally (Dequeue t) s2 = count_list (dequeued (trace s2)) t"
        by (simp add: tally_def count_dequeued)
      moreover have "tally (Enqueue t) s1 = count_list (enqueued (trace s1)) t"
        by (simp add: tally_def count_enqueued)
      ultimately show ?thesis using dq by simp
    qed
    have c: "tally (SetCompleted t True) s2 = tally (Enqueue t) s1"
      if x: "\<forall>sl\<in>set (slaves s2). pc sl = Exited" for t
    proof -
      from x have "\<forall>sl\<in>set (slaves s2). pc sl \<noteq> Died" by simp
      with concluded_run[OF counts_ThreadPool(2) r3] all_ended_counts(2)[OF en]
      have "tally (Main t) s2 = tally (SetCompleted t True) s2" by (simp add: concluded_def)
      with m show ?thesis by simp
    qed
    from en m c show ?thesis by blast
  qed
  from a dq f2 fin show ?thesis by (simp only: simp_thms) blast
qed


lemma goes_on_running:
  assumes "i < length (slaves s)"
  shows "(pc (slaves s ! i) = Executing t \<longrightarrow>
           (\<exists>s'. run [SlaveMain i Returns, SlaveFinish i, SlaveTest i] s = Some s'
              \<and> \<not> mRunning (heap s' t) \<and> mCompleted (heap s' t)
              \<and> pc (slaves s' ! i) = (if mCancel (slaves s ! i) then Exited else Locking)
              \<and> fresh s s' = [Main t, Lock (TaskObj t), SetRunning t False, SetCompleted t True,
                    Broadcast (TaskObj t), Unlock (TaskObj t)]))
       \<and> (pc (slaves s ! i) = Returned t \<longrightarrow>
           (\<exists>s'. run [SlaveFinish i, SlaveTest i] s = Some s'
              \<and> \<not> mRunning (heap s' t) \<and> mCompleted (heap s' t)
              \<and> pc (slaves s' ! i) = (if mCancel (slaves s ! i) then Exited else Locking)
              \<and> fresh s s' = [Lock (TaskObj t), SetRunning t False, SetCompleted t True,
                    Broadcast (TaskObj t), Unlock (TaskObj t)]))"
  using assms by (simp add: move_defs prim_defs fresh_def)

subsection \<open>A pool without slaves\<close>

lemma reset_idle: "reset k = idle"
  by (simp add: reset_def idle_def)

lemma unserved_step:
  assumes "unserved s" "step m s = Some s'"
  shows "unserved s'"
proof -
  from assms(1) have e: "slaves s = []" by (simp add: unserved_def)
  show ?thesis
  proof (cases m)
    case (PushReset t)
    with assms show ?thesis
      by (auto simp: unserved_def pushed_def push_reset_def prim_defs reset_idle dequeued_append)
  next
    case (PushEnqueue t)
    with assms show ?thesis
      by (auto simp: unserved_def pushed_def push_enqueue_def prim_defs dequeued_append
          split: if_splits)
  next
    case OwnerBegin
    with assms show ?thesis
      by (auto simp: unserved_def pushed_def move_defs prim_defs dequeued_append
          split: if_splits)
  next
    case OwnerWake
    with assms show ?thesis
      by (auto simp: unserved_def pushed_def move_defs prim_defs dequeued_append
          split: if_splits owner_pc.splits)
  next
    case OwnerDelete
    with assms show ?thesis
      by (auto simp: unserved_def pushed_def move_defs prim_defs dequeued_append
          split: if_splits owner_pc.splits)
  qed (use assms(2) e in simp_all)
qed

lemma unserved_run: "unserved s \<Longrightarrow> run ms s = Some s' \<Longrightarrow> unserved s'"
  by (induction ms arbitrary: s) (auto split: option.splits dest: unserved_step)

lemma unserved_ThreadPool: "unserved (ThreadPool 0 h)"
  by (simp add: unserved_def ThreadPool_def pushed_def)

lemma stuck_step:
  assumes "slaves s = []" "mTasks s \<noteq> []" "draining s" "step m s = Some s'"
  shows "slaves s' = [] \<and> mTasks s' \<noteq> [] \<and> draining s'"
  using assms
  by (cases m)
     (auto simp: draining_def move_defs prim_defs split: if_splits owner_pc.splits)

lemma stuck_run:
  "run ms s = Some s' \<Longrightarrow> slaves s = [] \<Longrightarrow> mTasks s \<noteq> [] \<Longrightarrow> draining s \<Longrightarrow>
   slaves s' = [] \<and> mTasks s' \<noteq> [] \<and> draining s'"
proof (induction ms arbitrary: s)
  case Nil
  then show ?case by simp
next
  case (Cons m ms)
  from Cons.prems(1) obtain s1 where s1: "step m s = Some s1" "run ms s1 = Some s'"
    by (auto split: option.splits)
  from stuck_step[OF Cons.prems(2,3,4) s1(1)] Cons.IH[OF s1(2)] show ?case by simp
qed

subsection \<open>The claims about the pool\<close>

text \<open>
  Claim C1, as amended. When \<open>lTask->main()\<close> returns, the slave's next step, whatever
  the other threads do before it, takes the task's lock, sets \<open>running\<close> to false and
  \<open>completed\<close> to true, broadcasts and unlocks. When a failure leaves \<open>lTask->main()\<close>,
  the slave thread ends there: it makes no further action, and the final transition is
  not made by it.
\<close>

theorem final_transition_when_main_returns:
  "(step (SlaveMain i Returns) s = Some s1 \<and> pc (slaves s ! i) = Executing t
      \<and> run ms s1 = Some s2 \<and> Slave i \<notin> actor ` set ms
     \<longrightarrow> (\<exists>s3. step (SlaveFinish i) s2 = Some s3
           \<and> \<not> mRunning (heap s3 t) \<and> mCompleted (heap s3 t)
           \<and> acts (Slave i) s3 = acts (Slave i) s @
               [Main t, Lock (TaskObj t), SetRunning t False, SetCompleted t True,
                Broadcast (TaskObj t), Unlock (TaskObj t)]))
   \<and> (step (SlaveMain i Raises) s = Some s1 \<and> pc (slaves s ! i) = Executing t
      \<and> run ms s1 = Some s2
     \<longrightarrow> pc (slaves s2 ! i) = Died \<and> step (SlaveFinish i) s2 = None
         \<and> acts (Slave i) s2 = acts (Slave i) s @ [Main t])"
proof (rule conjI; rule impI)
  assume a: "step (SlaveMain i Returns) s = Some s1 \<and> pc (slaves s ! i) = Executing t
      \<and> run ms s1 = Some s2 \<and> Slave i \<notin> actor ` set ms"
  then have st: "step (SlaveMain i Returns) s = Some s1" and p: "pc (slaves s ! i) = Executing t"
    and r: "run ms s1 = Some s2" and o: "Slave i \<notin> actor ` set ms" by auto
  have l: "i < length (slaves s)" using step_Some_slave[OF st] by simp
  note mn = main_effect[OF st p]
  have l1: "i < length (slaves s1)" using mn l by simp
  note ro = run_others[OF r o l1]
  have "i < length (slaves s2)" "pc (slaves s2 ! i) = Returned t" using ro mn l1 by auto
  from finish_effect[OF this] ro mn l
  show "\<exists>s3. step (SlaveFinish i) s2 = Some s3
           \<and> \<not> mRunning (heap s3 t) \<and> mCompleted (heap s3 t)
           \<and> acts (Slave i) s3 = acts (Slave i) s @
               [Main t, Lock (TaskObj t), SetRunning t False, SetCompleted t True,
                Broadcast (TaskObj t), Unlock (TaskObj t)]" by auto
next
  assume a: "step (SlaveMain i Raises) s = Some s1 \<and> pc (slaves s ! i) = Executing t
      \<and> run ms s1 = Some s2"
  then have st: "step (SlaveMain i Raises) s = Some s1" and p: "pc (slaves s ! i) = Executing t"
    and r: "run ms s1 = Some s2" by auto
  have l: "i < length (slaves s)" using step_Some_slave[OF st] by simp
  note mn = main_effect[OF st p]
  have l1: "i < length (slaves s1)" "pc (slaves s1 ! i) = Died" using mn l by auto
  from died_stays[OF r l1] mn
  show "pc (slaves s2 ! i) = Died \<and> step (SlaveFinish i) s2 = None
         \<and> acts (Slave i) s2 = acts (Slave i) s @ [Main t]" by simp
qed

theorem final_transition_witness:
  "(\<exists>s3. run [PushReset 0, PushEnqueue 0, SlaveTest 0, SlaveLock 0, SlaveStart 0,
              SlaveMain 0 Returns, PushReset 1, PushEnqueue 1, SlaveFinish 0]
          (ThreadPool 1 (\<lambda>_. idle)) = Some s3
      \<and> \<not> mRunning (heap s3 0) \<and> mCompleted (heap s3 0)
      \<and> acts (Slave 0) s3 =
          [Lock PoolObj, Dequeue 0, Unlock PoolObj,
           Lock (TaskObj 0), SetRunning 0 True, Broadcast (TaskObj 0), Unlock (TaskObj 0),
           Main 0, Lock (TaskObj 0), SetRunning 0 False, SetCompleted 0 True,
           Broadcast (TaskObj 0), Unlock (TaskObj 0)])
   \<and> (\<exists>s2. run [PushReset 0, PushEnqueue 0, SlaveTest 0, SlaveLock 0, SlaveStart 0,
              SlaveMain 0 Raises, PushReset 1, PushEnqueue 1]
          (ThreadPool 1 (\<lambda>_. idle)) = Some s2
      \<and> pc (slaves s2 ! 0) = Died \<and> step (SlaveFinish 0) s2 = None)"
  using final_transition_when_main_returns
    [of 0 "the (run [PushReset 0, PushEnqueue 0, SlaveTest 0, SlaveLock 0, SlaveStart 0]
              (ThreadPool 1 (\<lambda>_. idle)))"
        "the (run [PushReset 0, PushEnqueue 0, SlaveTest 0, SlaveLock 0, SlaveStart 0,
              SlaveMain 0 Returns] (ThreadPool 1 (\<lambda>_. idle)))"
        0 "[PushReset 1, PushEnqueue 1]"
        "the (run [PushReset 0, PushEnqueue 0, SlaveTest 0, SlaveLock 0, SlaveStart 0,
              SlaveMain 0 Returns, PushReset 1, PushEnqueue 1] (ThreadPool 1 (\<lambda>_. idle)))"]
  by (simp add: pool_eval)

text \<open>
  Claim C1 as stated fails: a task whose \<open>main()\<close> raises is left with \<open>running\<close> true
  and \<open>completed\<close> false, and the slave that ran it can make no step any more.
\<close>

theorem main_raises_counterexample:
  "\<exists>s. run [PushReset 0, PushEnqueue 0, SlaveTest 0, SlaveLock 0, SlaveStart 0,
            SlaveMain 0 Raises] (ThreadPool 1 (\<lambda>_. idle)) = Some s
     \<and> mRunning (heap s 0) \<and> \<not> mCompleted (heap s 0)
     \<and> pc (slaves s ! 0) = Died
     \<and> acts (Slave 0) s =
          [Lock PoolObj, Dequeue 0, Unlock PoolObj,
           Lock (TaskObj 0), SetRunning 0 True, Broadcast (TaskObj 0), Unlock (TaskObj 0),
           Main 0]
     \<and> step (SlaveTest 0) s = None \<and> step (SlaveLock 0) s = None \<and> step (SlaveWake 0) s = None
     \<and> step (SlaveStart 0) s = None \<and> step (SlaveMain 0 Returns) s = None
     \<and> step (SlaveMain 0 Raises) s = None \<and> step (SlaveFinish 0) s = None"
  by (simp add: pool_eval)

text \<open>
  Claim C2. \<open>ThreadPool::push\<close> resets the task, which clears \<open>running\<close> and \<open>completed\<close>,
  then under the pool lock appends it at the tail of the queue and signals the pool's
  condition once. A slave that dequeues takes the head of the queue. In every state the
  pool can reach, the tasks dequeued so far followed by the queue are the tasks enqueued
  so far, in the order in which the pushes took the pool lock: tasks leave in the order
  in which they entered.
\<close>

theorem push_appends_and_queue_is_fifo:
  "run [PushReset t, PushEnqueue t] s = Some (push t s)
   \<and> trace (push t s) = trace s @ map (Pair Producer)
          [Reset t, Lock PoolObj, Enqueue t, Signal PoolObj, Unlock PoolObj]
   \<and> mTasks (push t s) = mTasks s @ [t]
   \<and> \<not> mRunning (heap (push t s) t) \<and> \<not> mCompleted (heap (push t s) t)
   \<and> ((m = SlaveLock i \<or> m = SlaveWake i) \<and> step m s = Some s1
        \<and> pc (slaves s1 ! i) = Dequeued t'
       \<longrightarrow> mTasks s = t' # mTasks s1)
   \<and> (run ms (ThreadPool n h) = Some s2
       \<longrightarrow> dequeued (trace s2) @ mTasks s2 = enqueued (trace s2))"
  using push_effect[of t s] take_effect[of m i s s1 t'] fifo_run[OF fifo_ThreadPool, of ms n h s2]
  by (simp add: fifo_def)

theorem push_fifo_witness:
  "\<exists>s. run [PushReset 5, PushEnqueue 5, PushReset 7, PushReset 6, PushEnqueue 6, PushEnqueue 7,
             SlaveTest 0, SlaveLock 0, SlaveTest 1, SlaveLock 1]
         (ThreadPool 2 (\<lambda>_. idle)) = Some s
     \<and> enqueued (trace s) = [5, 6, 7] \<and> dequeued (trace s) = [5, 6] \<and> mTasks s = [7]
     \<and> pc (slaves s ! 0) = Dequeued 5 \<and> pc (slaves s ! 1) = Dequeued 6"
  using push_appends_and_queue_is_fifo
    [of 5 "ThreadPool 2 (\<lambda>_. idle)" "SlaveLock 0" 0
        "the (run [PushReset 5, PushEnqueue 5, SlaveTest 0, SlaveLock 0] (ThreadPool 2 (\<lambda>_. idle)))" 5
        "[PushReset 5, PushEnqueue 5, PushReset 7, PushReset 6, PushEnqueue 6, PushEnqueue 7,
             SlaveTest 0, SlaveLock 0, SlaveTest 1, SlaveLock 1]" 2 "\<lambda>_. idle"
        "the (run [PushReset 5, PushEnqueue 5, PushReset 7, PushReset 6, PushEnqueue 6, PushEnqueue 7,
             SlaveTest 0, SlaveLock 0, SlaveTest 1, SlaveLock 1] (ThreadPool 2 (\<lambda>_. idle)))"]
  by (simp add: pool_eval)

text \<open>
  Claim C7. Take any reachable state in which a slave that is not cancelled dequeues a
  task, and let the slave start the task, run \<open>main()\<close> to its return and finish, with any
  steps of other threads in between. Then the slave's own actions are, in this order:
  pop the head of the queue and release the pool lock; lock the task, set \<open>running\<close> to
  true, broadcast, unlock; \<open>main()\<close>; lock the task, set \<open>running\<close> to false and
  \<open>completed\<close> to true, broadcast, unlock. While \<open>main()\<close> runs the slave holds no lock.
  At each of the three points in between the slave has no other step to make than the
  next one of this list (apart from a \<open>main()\<close> that raises, the subject of claim C1).
\<close>

theorem slave_handles_task_in_order:
  assumes reach: "run ms0 (ThreadPool n h) = Some s0"
    and take: "m = SlaveLock i \<or> m = SlaveWake i" "step m s0 = Some s1"
      "pc (slaves s1 ! i) = Dequeued t"
    and o1: "run ms1 s1 = Some s1'" "Slave i \<notin> actor ` set ms1"
    and start: "step (SlaveStart i) s1' = Some s2"
    and o2: "run ms2 s2 = Some s2'" "Slave i \<notin> actor ` set ms2"
    and main: "step (SlaveMain i Returns) s2' = Some s3"
    and o3: "run ms3 s3 = Some s3'" "Slave i \<notin> actor ` set ms3"
    and fin: "step (SlaveFinish i) s3' = Some s4"
  shows "\<not> mCancel (slaves s0 ! i) \<and> mTasks s0 = t # mTasks s1
    \<and> acts (Slave i) s4 = acts (Slave i) s0 @
        [if m = SlaveLock i then Lock PoolObj else Woken PoolObj, Dequeue t, Unlock PoolObj,
         Lock (TaskObj t), SetRunning t True, Broadcast (TaskObj t), Unlock (TaskObj t),
         Main t,
         Lock (TaskObj t), SetRunning t False, SetCompleted t True, Broadcast (TaskObj t),
         Unlock (TaskObj t)]
    \<and> mRunning (heap s2 t)
    \<and> pc (slaves s2' ! i) = Executing t
    \<and> acts (Slave i) s2' = acts (Slave i) s0 @
        [if m = SlaveLock i then Lock PoolObj else Woken PoolObj, Dequeue t, Unlock PoolObj,
         Lock (TaskObj t), SetRunning t True, Broadcast (TaskObj t), Unlock (TaskObj t)]
    \<and> held (acts (Slave i) s2') = []
    \<and> \<not> mRunning (heap s4 t) \<and> mCompleted (heap s4 t)
    \<and> (\<forall>m' x. actor m' = Slave i \<and> step m' s1' = Some x \<longrightarrow> m' = SlaveStart i)
    \<and> (\<forall>m' x. actor m' = Slave i \<and> step m' s2' = Some x \<longrightarrow>
          m' = SlaveMain i Returns \<or> m' = SlaveMain i Raises)
    \<and> (\<forall>m' x. actor m' = Slave i \<and> step m' s3' = Some x \<longrightarrow> m' = SlaveFinish i)"
proof -
  note t = take_effect[OF take]
  have l1: "i < length (slaves s1)" using t step_length[OF take(2)] by simp
  note r1 = run_others[OF o1 l1]
  have p1: "pc (slaves s1' ! i) = Dequeued t" using r1 take(3) by simp
  note st = start_effect[OF start p1]
  have l2: "i < length (slaves s2)" using st r1 l1 by simp
  note r2 = run_others[OF o2 l2]
  have p2: "pc (slaves s2' ! i) = Executing t" using r2 st by simp
  note mn = main_effect[OF main p2]
  have l3: "i < length (slaves s3)" using mn r2 l2 by simp
  note r3 = run_others[OF o3 l3]
  have p3: "pc (slaves s3' ! i) = Returned t" using r3 mn by simp
  have l3': "i < length (slaves s3')" using r3 l3 by simp
  from finish_effect[OF l3' p3] fin
  have fe: "\<not> mRunning (heap s4 t)" "mCompleted (heap s4 t)"
    "acts (Slave i) s4 = acts (Slave i) s3' @
        [Lock (TaskObj t), SetRunning t False, SetCompleted t True,
         Broadcast (TaskObj t), Unlock (TaskObj t)]" by auto
  have reach2: "run (ms0 @ m # ms1 @ SlaveStart i # ms2) (ThreadPool n h) = Some s2'"
    using reach take(2) o1(1) start o2(1) by (simp add: run_append)
  have n1: "\<forall>m' x. actor m' = Slave i \<and> step m' s1' = Some x \<longrightarrow> m' = SlaveStart i"
    using slave_next_move[of _ s1' _ i] p1 by auto
  have n2: "\<forall>m' x. actor m' = Slave i \<and> step m' s2' = Some x \<longrightarrow>
          m' = SlaveMain i Returns \<or> m' = SlaveMain i Raises"
    using slave_next_move[of _ s2' _ i] p2 by auto
  have n3: "\<forall>m' x. actor m' = Slave i \<and> step m' s3' = Some x \<longrightarrow> m' = SlaveFinish i"
    using slave_next_move[of _ s3' _ i] p3 by auto
  have "\<not> mCancel (slaves s0 ! i) \<and> mTasks s0 = t # mTasks s1
    \<and> acts (Slave i) s4 = acts (Slave i) s0 @
        [if m = SlaveLock i then Lock PoolObj else Woken PoolObj, Dequeue t, Unlock PoolObj,
         Lock (TaskObj t), SetRunning t True, Broadcast (TaskObj t), Unlock (TaskObj t),
         Main t,
         Lock (TaskObj t), SetRunning t False, SetCompleted t True, Broadcast (TaskObj t),
         Unlock (TaskObj t)]
    \<and> mRunning (heap s2 t)
    \<and> pc (slaves s2' ! i) = Executing t
    \<and> acts (Slave i) s2' = acts (Slave i) s0 @
        [if m = SlaveLock i then Lock PoolObj else Woken PoolObj, Dequeue t, Unlock PoolObj,
         Lock (TaskObj t), SetRunning t True, Broadcast (TaskObj t), Unlock (TaskObj t)]
    \<and> held (acts (Slave i) s2') = []
    \<and> \<not> mRunning (heap s4 t) \<and> mCompleted (heap s4 t)"
    using t r1 st r2 p2 mn r3 fe held_reachable[OF reach2, of "Slave i"] by simp
  with n1 n2 n3 show ?thesis by blast
qed

theorem slave_handles_task_witness:
  "acts (Slave 0)
     (the (run [PushReset 3, PushEnqueue 3, SlaveTest 0, SlaveLock 0, PushReset 4, PushEnqueue 4,
                SlaveStart 0, SlaveTest 1, SlaveLock 1, SlaveStart 1, SlaveMain 0 Returns,
                SlaveMain 1 Returns, SlaveFinish 0]
            (ThreadPool 2 (\<lambda>_. idle)))) =
     [Lock PoolObj, Dequeue 3, Unlock PoolObj,
      Lock (TaskObj 3), SetRunning 3 True, Broadcast (TaskObj 3), Unlock (TaskObj 3),
      Main 3,
      Lock (TaskObj 3), SetRunning 3 False, SetCompleted 3 True, Broadcast (TaskObj 3),
      Unlock (TaskObj 3)]
   \<and> held (acts (Slave 0)
        (the (run [PushReset 3, PushEnqueue 3, SlaveTest 0, SlaveLock 0, PushReset 4,
                   PushEnqueue 4, SlaveStart 0, SlaveTest 1, SlaveLock 1, SlaveStart 1]
               (ThreadPool 2 (\<lambda>_. idle))))) = []"
  using slave_handles_task_in_order
    [of "[PushReset 3, PushEnqueue 3, SlaveTest 0]" 2 "\<lambda>_. idle"
        "the (run [PushReset 3, PushEnqueue 3, SlaveTest 0] (ThreadPool 2 (\<lambda>_. idle)))"
        "SlaveLock 0" 0
        "the (run [PushReset 3, PushEnqueue 3, SlaveTest 0, SlaveLock 0] (ThreadPool 2 (\<lambda>_. idle)))"
        3
        "[PushReset 4, PushEnqueue 4]"
        "the (run [PushReset 3, PushEnqueue 3, SlaveTest 0, SlaveLock 0, PushReset 4, PushEnqueue 4]
            (ThreadPool 2 (\<lambda>_. idle)))"
        "the (run [PushReset 3, PushEnqueue 3, SlaveTest 0, SlaveLock 0, PushReset 4, PushEnqueue 4,
                SlaveStart 0] (ThreadPool 2 (\<lambda>_. idle)))"
        "[SlaveTest 1, SlaveLock 1, SlaveStart 1]"
        "the (run [PushReset 3, PushEnqueue 3, SlaveTest 0, SlaveLock 0, PushReset 4, PushEnqueue 4,
                SlaveStart 0, SlaveTest 1, SlaveLock 1, SlaveStart 1] (ThreadPool 2 (\<lambda>_. idle)))"
        "the (run [PushReset 3, PushEnqueue 3, SlaveTest 0, SlaveLock 0, PushReset 4, PushEnqueue 4,
                SlaveStart 0, SlaveTest 1, SlaveLock 1, SlaveStart 1, SlaveMain 0 Returns]
            (ThreadPool 2 (\<lambda>_. idle)))"
        "[SlaveMain 1 Returns]"
        "the (run [PushReset 3, PushEnqueue 3, SlaveTest 0, SlaveLock 0, PushReset 4, PushEnqueue 4,
                SlaveStart 0, SlaveTest 1, SlaveLock 1, SlaveStart 1, SlaveMain 0 Returns,
                SlaveMain 1 Returns] (ThreadPool 2 (\<lambda>_. idle)))"
        "the (run [PushReset 3, PushEnqueue 3, SlaveTest 0, SlaveLock 0, PushReset 4, PushEnqueue 4,
                SlaveStart 0, SlaveTest 1, SlaveLock 1, SlaveStart 1, SlaveMain 0 Returns,
                SlaveMain 1 Returns, SlaveFinish 0] (ThreadPool 2 (\<lambda>_. idle)))"]
  by (simp add: pool_eval)

text \<open>
  Claim C9, as amended. When no task is pushed while it is in flight, every task that
  has been pushed has \<open>running\<close> and \<open>completed\<close> never both true, in every state the pool
  can reach: \<open>push\<close> clears both flags, a slave about to set \<open>running\<close> finds both flags
  clear, and the slave that finishes a task clears \<open>running\<close> and sets \<open>completed\<close> within
  one locked section.
\<close>

theorem flags_exclusive_when_pushed_one_at_a_time:
  assumes "run ms (ThreadPool n h) = Some s" and "well_used ms (ThreadPool n h)"
  shows "(\<forall>t. pushed s t \<longrightarrow> \<not> (mRunning (heap s t) \<and> mCompleted (heap s t)))
    \<and> (\<forall>t. \<exists>s'. step (PushReset t) s = Some s'
          \<and> \<not> mRunning (heap s' t) \<and> \<not> mCompleted (heap s' t))
    \<and> (\<forall>i<length (slaves s). \<forall>t. pc (slaves s ! i) = Dequeued t \<longrightarrow>
          \<not> mRunning (heap s t) \<and> \<not> mCompleted (heap s t))
    \<and> (\<forall>i<length (slaves s). \<forall>t. pc (slaves s ! i) = Returned t \<longrightarrow>
          (\<exists>s'. step (SlaveFinish i) s = Some s'
             \<and> fresh s s' = [Lock (TaskObj t), SetRunning t False, SetCompleted t True,
                             Broadcast (TaskObj t), Unlock (TaskObj t)]
             \<and> \<not> mRunning (heap s' t) \<and> mCompleted (heap s' t)))"
proof -
  have "tidy s" by (rule tidy_run[OF tidy_ThreadPool assms])
  then have T: "Tidy (resetting s) (mTasks s) (map pc (slaves s)) (heap s) {t. pushed s t}"
    by (simp add: tidy_def)
  note D = TidyD[OF T]
  have a: "\<forall>t. pushed s t \<longrightarrow> \<not> (mRunning (heap s t) \<and> mCompleted (heap s t))"
    using D(10) by auto
  have b: "\<forall>t. \<exists>s'. step (PushReset t) s = Some s'
          \<and> \<not> mRunning (heap s' t) \<and> \<not> mCompleted (heap s' t)"
    by (simp add: push_reset_def prim_defs reset_def)
  have c: "\<forall>i<length (slaves s). \<forall>t. pc (slaves s ! i) = Dequeued t \<longrightarrow>
          \<not> mRunning (heap s t) \<and> \<not> mCompleted (heap s t)"
  proof (intro allI impI)
    fix i t assume i: "i < length (slaves s)" "pc (slaves s ! i) = Dequeued t"
    then have "map pc (slaves s) ! i = Dequeued t" "i < length (map pc (slaves s))" by simp_all
    with D(8)[of i t] D(9)[of i t]
    show "\<not> mRunning (heap s t) \<and> \<not> mCompleted (heap s t)" by simp
  qed
  have d: "\<forall>i<length (slaves s). \<forall>t. pc (slaves s ! i) = Returned t \<longrightarrow>
          (\<exists>s'. step (SlaveFinish i) s = Some s'
             \<and> fresh s s' = [Lock (TaskObj t), SetRunning t False, SetCompleted t True,
                             Broadcast (TaskObj t), Unlock (TaskObj t)]
             \<and> \<not> mRunning (heap s' t) \<and> mCompleted (heap s' t))"
    by (simp add: slave_finish_def prim_defs fresh_def)
  from a b c d show ?thesis by blast
qed

theorem flags_exclusive_witness:
  "\<exists>s. run [PushReset 0, PushEnqueue 0, SlaveTest 0, SlaveLock 0, SlaveStart 0,
            SlaveMain 0 Returns, SlaveFinish 0, PushReset 0, PushEnqueue 0, SlaveTest 0,
            SlaveLock 0, SlaveStart 0] (ThreadPool 1 (\<lambda>_. idle)) = Some s
     \<and> well_used [PushReset 0, PushEnqueue 0, SlaveTest 0, SlaveLock 0, SlaveStart 0,
            SlaveMain 0 Returns, SlaveFinish 0, PushReset 0, PushEnqueue 0, SlaveTest 0,
            SlaveLock 0, SlaveStart 0] (ThreadPool 1 (\<lambda>_. idle))
     \<and> pushed s 0 \<and> mRunning (heap s 0) \<and> \<not> mCompleted (heap s 0)"
  using flags_exclusive_when_pushed_one_at_a_time
    [of "[PushReset 0, PushEnqueue 0, SlaveTest 0, SlaveLock 0, SlaveStart 0,
            SlaveMain 0 Returns, SlaveFinish 0, PushReset 0, PushEnqueue 0, SlaveTest 0,
            SlaveLock 0, SlaveStart 0]" 1 "\<lambda>_. idle"
        "the (run [PushReset 0, PushEnqueue 0, SlaveTest 0, SlaveLock 0, SlaveStart 0,
            SlaveMain 0 Returns, SlaveFinish 0, PushReset 0, PushEnqueue 0, SlaveTest 0,
            SlaveLock 0, SlaveStart 0] (ThreadPool 1 (\<lambda>_. idle)))"]
  by (simp add: pool_eval use_eval)

text \<open>
  Claim C9 as stated fails: \<open>push\<close> accepts a task that is already in the queue. The
  task is then dequeued twice, and the second slave to start it sets \<open>running\<close> while
  \<open>completed\<close> is still true from the first execution.
\<close>

theorem pushed_twice_counterexample:
  "\<exists>s. run [PushReset 0, PushEnqueue 0, PushReset 0, PushEnqueue 0, SlaveTest 0, SlaveLock 0,
            SlaveStart 0, SlaveMain 0 Returns, SlaveFinish 0, SlaveTest 0, SlaveLock 0,
            SlaveStart 0] (ThreadPool 1 (\<lambda>_. idle)) = Some s
     \<and> pushed s 0 \<and> mRunning (heap s 0) \<and> mCompleted (heap s 0)
     \<and> \<not> well_used [PushReset 0, PushEnqueue 0, PushReset 0, PushEnqueue 0, SlaveTest 0,
            SlaveLock 0, SlaveStart 0, SlaveMain 0 Returns, SlaveFinish 0, SlaveTest 0,
            SlaveLock 0, SlaveStart 0] (ThreadPool 1 (\<lambda>_. idle))"
  by (simp add: pool_eval use_eval)

text \<open>
  Claim C8, as amended. With a queue that is not empty, the destructor (having the pool
  lock) takes the lock of the last task of the queue, releases the pool lock and waits on
  that task's condition; woken, it releases the task's lock, takes the pool lock again and
  tests the queue again. With an empty queue it cancels every slave, broadcasts on the
  pool's condition and unlocks. So no slave is cancelled while the owner is still in the
  loop; when the owner leaves the loop the queue is empty and every task enqueued so far
  has been dequeued by a slave; the cancellation moves no slave and touches no task. From
  then on, whatever the threads do, every slave stays cancelled and nothing is dequeued:
  the tasks dequeued are those enqueued before the owner left the loop, and a task
  enqueued later stays in the queue. The slaves are then deleted one by one, each only
  when its thread has ended (it has left its loop, or a failure has left \<open>main()\<close>), and a
  deletion changes nothing but the owner's place and the record of actions. A slave that
  holds a task goes on to run and complete it, cancelled or not, and only then ends; a
  cancelled slave that holds no task ends without touching the queue. So the loop and the
  cancellation do not wait for a task to complete (the owner can have cancelled the
  slaves while a task is running and not completed), but the deletion does: when the
  destructor has returned, every slave has ended, \<open>main()\<close> has been run to its end on
  each task as many times as the task was enqueued before the owner left the loop, and,
  when no slave has died, each of them has been marked completed as many times.
\<close>

theorem destructor_drains_then_cancels:
  "(mTasks s \<noteq> [] \<longrightarrow>
      (owner s = Alive \<longrightarrow>
           (\<exists>s'. step OwnerBegin s = Some s'
              \<and> fresh s s' = [Lock PoolObj, Lock (TaskObj (last (mTasks s))), Unlock PoolObj,
                              Wait (TaskObj (last (mTasks s)))]
              \<and> owner s' = Draining (last (mTasks s))
              \<and> slaves s' = slaves s \<and> mTasks s' = mTasks s \<and> heap s' = heap s))
       \<and> (owner s = Draining t \<longrightarrow>
           (\<exists>s'. step OwnerWake s = Some s'
              \<and> fresh s s' = [Woken (TaskObj t), Unlock (TaskObj t), Lock PoolObj,
                              Lock (TaskObj (last (mTasks s))), Unlock PoolObj,
                              Wait (TaskObj (last (mTasks s)))]
              \<and> owner s' = Draining (last (mTasks s))
              \<and> slaves s' = slaves s \<and> mTasks s' = mTasks s \<and> heap s' = heap s)))
   \<and> (mTasks s = [] \<longrightarrow>
      (owner s = Alive \<longrightarrow>
           (\<exists>s'. step OwnerBegin s = Some s'
              \<and> fresh s s' = [Lock PoolObj] @ map Cancel [0..<length (slaves s)]
                              @ [Broadcast PoolObj, Unlock PoolObj]
              \<and> owner s' = Deleting 0
              \<and> slaves s' = cancelling (slaves s) \<and> mTasks s' = [] \<and> heap s' = heap s))
       \<and> (owner s = Draining t \<longrightarrow>
           (\<exists>s'. step OwnerWake s = Some s'
              \<and> fresh s s' = [Woken (TaskObj t), Unlock (TaskObj t), Lock PoolObj]
                              @ map Cancel [0..<length (slaves s)]
                              @ [Broadcast PoolObj, Unlock PoolObj]
              \<and> owner s' = Deleting 0
              \<and> slaves s' = cancelling (slaves s) \<and> mTasks s' = [] \<and> heap s' = heap s)))
   \<and> (run ms (ThreadPool n h) = Some s \<and> draining s \<longrightarrow> uncancelled s)
   \<and> (run ms (ThreadPool n h) = Some s \<and> step m s = Some s1 \<and> draining s \<and> \<not> draining s1 \<longrightarrow>
        mTasks s = [] \<and> dequeued (trace s1) = enqueued (trace s1)
        \<and> owner s1 = Deleting 0 \<and> (\<forall>sl\<in>set (slaves s1). mCancel sl)
        \<and> map pc (slaves s1) = map pc (slaves s) \<and> heap s1 = heap s)
   \<and> (run ms (ThreadPool n h) = Some s \<and> step m s = Some s1 \<and> draining s \<and> \<not> draining s1
        \<and> run ms' s1 = Some s2 \<longrightarrow>
        (\<forall>sl\<in>set (slaves s2). mCancel sl)
        \<and> dequeued (trace s2) = enqueued (trace s1)
        \<and> enqueued (trace s2) = enqueued (trace s1) @ mTasks s2
        \<and> (destroyed s2 \<longrightarrow>
              (\<forall>sl\<in>set (slaves s2). pc sl = Exited \<or> pc sl = Died)
            \<and> (\<forall>u. tally (Main u) s2 = tally (Enqueue u) s1)
            \<and> ((\<forall>sl\<in>set (slaves s2). pc sl = Exited) \<longrightarrow>
                  (\<forall>u. tally (SetCompleted u True) s2 = tally (Enqueue u) s1))))
   \<and> (step OwnerDelete s = Some s3 \<longleftrightarrow>
        (\<exists>k. owner s = Deleting k \<and> k < length (slaves s)
           \<and> (pc (slaves s ! k) = Exited \<or> pc (slaves s ! k) = Died)
           \<and> s3 = s\<lparr>owner := Deleting (Suc k), trace := trace s @ [(Owner, Delete k)]\<rparr>))
   \<and> (i < length (slaves s) \<and> pc (slaves s ! i) = Dequeued u \<longrightarrow>
        (\<exists>s'. run [SlaveStart i, SlaveMain i Returns, SlaveFinish i, SlaveTest i] s = Some s'
           \<and> \<not> mRunning (heap s' u) \<and> mCompleted (heap s' u)
           \<and> pc (slaves s' ! i) = (if mCancel (slaves s ! i) then Exited else Locking)
           \<and> fresh s s' =
               [Lock (TaskObj u), SetRunning u True, Broadcast (TaskObj u), Unlock (TaskObj u),
                Main u, Lock (TaskObj u), SetRunning u False, SetCompleted u True,
                Broadcast (TaskObj u), Unlock (TaskObj u)]))
   \<and> (i < length (slaves s) \<longrightarrow>
        (pc (slaves s ! i) = Executing u \<longrightarrow>
           (\<exists>s'. run [SlaveMain i Returns, SlaveFinish i, SlaveTest i] s = Some s'
              \<and> \<not> mRunning (heap s' u) \<and> mCompleted (heap s' u)
              \<and> pc (slaves s' ! i) = (if mCancel (slaves s ! i) then Exited else Locking)
              \<and> fresh s s' = [Main u, Lock (TaskObj u), SetRunning u False, SetCompleted u True,
                    Broadcast (TaskObj u), Unlock (TaskObj u)]))
        \<and> (pc (slaves s ! i) = Returned u \<longrightarrow>
           (\<exists>s'. run [SlaveFinish i, SlaveTest i] s = Some s'
              \<and> \<not> mRunning (heap s' u) \<and> mCompleted (heap s' u)
              \<and> pc (slaves s' ! i) = (if mCancel (slaves s ! i) then Exited else Locking)
              \<and> fresh s s' = [Lock (TaskObj u), SetRunning u False, SetCompleted u True,
                    Broadcast (TaskObj u), Unlock (TaskObj u)])))
   \<and> (i < length (slaves s) \<and> mCancel (slaves s ! i) \<longrightarrow>
        (pc (slaves s ! i) = Testing \<longrightarrow>
           (\<exists>s'. step (SlaveTest i) s = Some s' \<and> pc (slaves s' ! i) = Exited
              \<and> fresh s s' = [] \<and> mTasks s' = mTasks s \<and> heap s' = heap s))
        \<and> (pc (slaves s ! i) = Locking \<longrightarrow>
           (\<exists>s'. run [SlaveLock i, SlaveTest i] s = Some s' \<and> pc (slaves s' ! i) = Exited
              \<and> fresh s s' = [Lock PoolObj, Unlock PoolObj]
              \<and> mTasks s' = mTasks s \<and> heap s' = heap s))
        \<and> (pc (slaves s ! i) = PoolWaiting \<longrightarrow>
           (\<exists>s'. run [SlaveWake i, SlaveTest i] s = Some s' \<and> pc (slaves s' ! i) = Exited
              \<and> fresh s s' = [Woken PoolObj, Unlock PoolObj]
              \<and> mTasks s' = mTasks s \<and> heap s' = heap s)))
   \<and> (\<exists>s'. run [PushReset 0, PushEnqueue 0, OwnerBegin, SlaveTest 0, SlaveLock 0, SlaveStart 0,
               OwnerWake] (ThreadPool 1 (\<lambda>_. idle)) = Some s'
          \<and> owner s' = Deleting 0 \<and> mCancel (slaves s' ! 0) \<and> pc (slaves s' ! 0) = Executing 0
          \<and> mRunning (heap s' 0) \<and> \<not> mCompleted (heap s' 0)
          \<and> step OwnerDelete s' = None)"
proof -
  have leave: "mTasks s = [] \<and> dequeued (trace s1) = enqueued (trace s1)
        \<and> owner s1 = Deleting 0 \<and> (\<forall>sl\<in>set (slaves s1). mCancel sl)
        \<and> map pc (slaves s1) = map pc (slaves s) \<and> heap s1 = heap s"
    if r: "run ms (ThreadPool n h) = Some s" and st: "step m s = Some s1"
      and d: "draining s" "\<not> draining s1"
  proof -
    note l = leaves_drain_only_when_empty[OF st d]
    have "run (ms @ [m]) (ThreadPool n h) = Some s1" using r st by (simp add: run_append)
    from fifo_run[OF fifo_ThreadPool this] l have f: "dequeued (trace s1) = enqueued (trace s1)"
      by (simp add: fifo_def)
    from d(1) have o: "owner s = Alive \<or> (\<exists>t. owner s = Draining t)"
      by (cases "owner s") (auto simp: draining_def)
    from l have e: "mTasks s = []" by simp
    from o drain_cancels[OF e] st l
    have "slaves s1 = cancelling (slaves s) \<and> heap s1 = heap s" by auto
    with l f cancelling_props(2,3)[of "slaves s"] show ?thesis by simp
  qed
  have ex: "\<exists>s'. run [PushReset 0, PushEnqueue 0, OwnerBegin, SlaveTest 0, SlaveLock 0, SlaveStart 0,
               OwnerWake] (ThreadPool 1 (\<lambda>_. idle)) = Some s'
          \<and> owner s' = Deleting 0 \<and> mCancel (slaves s' ! 0) \<and> pc (slaves s' ! 0) = Executing 0
          \<and> mRunning (heap s' 0) \<and> \<not> mCompleted (heap s' 0)
          \<and> step OwnerDelete s' = None"
    by (simp add: pool_eval)
  show ?thesis
    apply (intro conjI)
    subgoal using drain_waits[of s t] by blast
    subgoal using drain_cancels[of s t] by blast
    subgoal using uncancelled_run[OF _ , of ms "ThreadPool n h" s] uncancelled_ThreadPool[of n h]
      by blast
    subgoal using leave by blast
    subgoal using after_destructor[of ms n h s m s1 ms' s2] by blast
    subgoal by (rule delete_explicit)
    subgoal using goes_on_after_cancel[of i s u] by blast
    subgoal using goes_on_running[of i s u] by blast
    subgoal using cancelled_slave_ends[of i s] by blast
    subgoal by (rule ex)
    done
qed

theorem destructor_witness:
  "(\<exists>s'. step OwnerBegin (the (run [PushReset 0, PushEnqueue 0] (ThreadPool 1 (\<lambda>_. idle))))
            = Some s'
        \<and> owner s' = Draining 0 \<and> \<not> mCancel (slaves s' ! 0))
   \<and> (\<exists>s. run [PushReset 0, PushEnqueue 0, SlaveTest 0, SlaveLock 0, SlaveStart 0, OwnerBegin,
            SlaveMain 0 Returns, SlaveFinish 0, SlaveTest 0, OwnerDelete]
         (ThreadPool 1 (\<lambda>_. idle)) = Some s
     \<and> destroyed s \<and> mTasks s = []
     \<and> tally (Enqueue 0) s = 1 \<and> tally (Main 0) s = 1 \<and> tally (SetCompleted 0 True) s = 1
     \<and> \<not> mRunning (heap s 0) \<and> mCompleted (heap s 0)
     \<and> acts Owner s = [Lock PoolObj, Cancel 0, Broadcast PoolObj, Unlock PoolObj, Delete 0])"
proof -
  let ?s = "the (run [PushReset 0, PushEnqueue 0] (ThreadPool 1 (\<lambda>_. idle)))"
  have h: "mTasks ?s \<noteq> []" "owner ?s = Alive" "last (mTasks ?s) = 0"
    "\<not> mCancel (slaves ?s ! 0)"
    by (simp_all add: pool_eval)
  from destructor_drains_then_cancels[of ?s, THEN conjunct1, THEN mp, OF h(1),
      THEN conjunct1, THEN mp, OF h(2)]
  obtain s' where s': "step OwnerBegin ?s = Some s'" "owner s' = Draining (last (mTasks ?s))"
    "slaves s' = slaves ?s" by blast
  have a: "\<exists>s'. step OwnerBegin ?s = Some s' \<and> owner s' = Draining 0
      \<and> \<not> mCancel (slaves s' ! 0)"
    by (rule exI[of _ s']) (use s' h(3,4) in \<open>simp only: simp_thms\<close>)
  let ?ms = "[PushReset 0, PushEnqueue 0, SlaveTest 0, SlaveLock 0, SlaveStart 0]"
  let ?ms' = "[SlaveMain 0 Returns, SlaveFinish 0, SlaveTest 0, OwnerDelete]"
  let ?a = "the (run ?ms (ThreadPool 1 (\<lambda>_. idle)))"
  let ?b = "the (step OwnerBegin ?a)"
  let ?c = "the (run ?ms' ?b)"
  have g: "run ?ms (ThreadPool 1 (\<lambda>_. idle)) = Some ?a \<and> step OwnerBegin ?a = Some ?b
      \<and> draining ?a \<and> \<not> draining ?b \<and> run ?ms' ?b = Some ?c"
    by (simp add: pool_eval draining_def)
  have d: "destroyed ?c" "\<forall>sl\<in>set (slaves ?c). pc sl = Exited"
    by (simp_all add: pool_eval)
  have e: "tally (Enqueue 0) ?b = 1"
    by (simp add: pool_eval tally_def)
  from destructor_drains_then_cancels[where s = ?a and ms = ?ms and n = 1 and h = "\<lambda>_. idle"
      and m = OwnerBegin and ?s1.0 = ?b and ms' = ?ms' and ?s2.0 = ?c,
      THEN conjunct2, THEN conjunct2, THEN conjunct2, THEN conjunct2, THEN conjunct1,
      THEN mp, OF g]
  have f: "destroyed ?c \<longrightarrow>
              (\<forall>sl\<in>set (slaves ?c). pc sl = Exited \<or> pc sl = Died)
            \<and> (\<forall>u. tally (Main u) ?c = tally (Enqueue u) ?b)
            \<and> ((\<forall>sl\<in>set (slaves ?c). pc sl = Exited) \<longrightarrow>
                  (\<forall>u. tally (SetCompleted u True) ?c = tally (Enqueue u) ?b))"
    by blast
  from f d e have t: "tally (Main 0) ?c = 1" "tally (SetCompleted 0 True) ?c = 1"
    by metis+
  have r: "run [PushReset 0, PushEnqueue 0, SlaveTest 0, SlaveLock 0, SlaveStart 0, OwnerBegin,
            SlaveMain 0 Returns, SlaveFinish 0, SlaveTest 0, OwnerDelete]
         (ThreadPool 1 (\<lambda>_. idle)) = Some ?c"
    by (simp add: pool_eval)
  have o: "mTasks ?c = []" "tally (Enqueue 0) ?c = 1"
     "\<not> mRunning (heap ?c 0)" "mCompleted (heap ?c 0)"
     "acts Owner ?c = [Lock PoolObj, Cancel 0, Broadcast PoolObj, Unlock PoolObj, Delete 0]"
    by (simp_all add: pool_eval tally_def)
  have b: "\<exists>s. run [PushReset 0, PushEnqueue 0, SlaveTest 0, SlaveLock 0, SlaveStart 0, OwnerBegin,
            SlaveMain 0 Returns, SlaveFinish 0, SlaveTest 0, OwnerDelete]
         (ThreadPool 1 (\<lambda>_. idle)) = Some s
     \<and> destroyed s \<and> mTasks s = []
     \<and> tally (Enqueue 0) s = 1 \<and> tally (Main 0) s = 1 \<and> tally (SetCompleted 0 True) s = 1
     \<and> \<not> mRunning (heap s 0) \<and> mCompleted (heap s 0)
     \<and> acts Owner s = [Lock PoolObj, Cancel 0, Broadcast PoolObj, Unlock PoolObj, Delete 0]"
    using r d(1) o t by (intro exI[of _ ?c] conjI)
  from a b show ?thesis by (rule conjI)
qed

text \<open>
  The claim as it stands fails on both of its conclusions. A \<open>push\<close> that overlaps the
  destructor (its reset before the owner tests the queue, its enqueue after the
  cancellation) leaves a task in the queue that no slave ever takes: the destructor
  returns with the task queued and not executed. And the destructor does wait for
  completion: having cancelled the slaves while task 0 runs, the owner can take no step;
  it deletes the slave, and returns, only after the slave has completed the task and
  ended.
\<close>

theorem destructor_counterexample:
  "(\<exists>s. run [PushReset 0, OwnerBegin, PushEnqueue 0, SlaveTest 0, OwnerDelete]
          (ThreadPool 1 (\<lambda>_. idle)) = Some s
      \<and> destroyed s \<and> pc (slaves s ! 0) = Exited
      \<and> enqueued (trace s) = [0] \<and> dequeued (trace s) = [] \<and> mTasks s = [0]
      \<and> tally (Main 0) s = 0
      \<and> step (SlaveTest 0) s = None \<and> step OwnerDelete s = None)
   \<and> (\<exists>s. run [PushReset 0, PushEnqueue 0, OwnerBegin, SlaveTest 0, SlaveLock 0, SlaveStart 0,
            OwnerWake] (ThreadPool 1 (\<lambda>_. idle)) = Some s
      \<and> owner s = Deleting 0 \<and> pc (slaves s ! 0) = Executing 0
      \<and> mRunning (heap s 0) \<and> \<not> mCompleted (heap s 0)
      \<and> \<not> destroyed s
      \<and> step OwnerBegin s = None \<and> step OwnerWake s = None \<and> step OwnerDelete s = None
      \<and> (\<exists>s'. run [SlaveMain 0 Returns, SlaveFinish 0, SlaveTest 0, OwnerDelete] s = Some s'
            \<and> destroyed s' \<and> mCompleted (heap s' 0)))"
  by (simp add: pool_eval tally_def)

text \<open>
  Claim C10. A pool constructed with no slave never has one. Nothing is ever dequeued and
  no \<open>main()\<close> ever runs, so every task that is pushed stays in the queue with \<open>running\<close>
  and \<open>completed\<close> false. Once the queue is not empty and the owner has not left the loop
  of the destructor, it never leaves it: the queue stays non-empty, and each time the
  owner tests it the owner waits again for the last task of the queue.
\<close>

theorem no_slaves_nothing_runs:
  assumes "run ms (ThreadPool 0 h) = Some s"
  shows "slaves s = []
    \<and> dequeued (trace s) = [] \<and> mTasks s = enqueued (trace s)
    \<and> (\<forall>th t. (th, Main t) \<notin> set (trace s))
    \<and> (\<forall>t. pushed s t \<longrightarrow> \<not> mRunning (heap s t) \<and> \<not> mCompleted (heap s t))
    \<and> (mTasks s \<noteq> [] \<and> draining s \<longrightarrow>
         (\<forall>ms' s'. run ms' s = Some s' \<longrightarrow>
            mTasks s' \<noteq> [] \<and> draining s' \<and> \<not> destroyed s'
            \<and> (\<exists>s''. step (if owner s' = Alive then OwnerBegin else OwnerWake) s' = Some s''
                  \<and> owner s'' = Draining (last (mTasks s')))))"
proof -
  note u = unserved_run[OF unserved_ThreadPool assms]
  from fifo_run[OF fifo_ThreadPool assms] u have q: "mTasks s = enqueued (trace s)"
    by (simp add: fifo_def unserved_def)
  have f: "\<forall>t. pushed s t \<longrightarrow> \<not> mRunning (heap s t) \<and> \<not> mCompleted (heap s t)"
    using u by (simp add: unserved_def idle_def)
  have st: "mTasks s' \<noteq> [] \<and> draining s' \<and> \<not> destroyed s'
            \<and> (\<exists>s''. step (if owner s' = Alive then OwnerBegin else OwnerWake) s' = Some s''
                  \<and> owner s'' = Draining (last (mTasks s')))"
    if "mTasks s \<noteq> []" "draining s" "run ms' s = Some s'" for ms' s'
  proof -
    from u have "slaves s = []" by (simp add: unserved_def)
    from stuck_run[OF that(3) this that(1,2)]
    have k: "slaves s' = []" "mTasks s' \<noteq> []" "draining s'" by simp_all
    from k(3) have o: "owner s' = Alive \<or> (\<exists>t. owner s' = Draining t)"
      by (cases "owner s'") (auto simp: draining_def)
    from k(3) have nd: "\<not> destroyed s'" by (auto simp: draining_def destroyed_def)
    from o drain_waits[OF k(2), of _] have
      "\<exists>s''. step (if owner s' = Alive then OwnerBegin else OwnerWake) s' = Some s''
                  \<and> owner s'' = Draining (last (mTasks s'))"
      by (cases "owner s'") auto
    with k nd show ?thesis by simp
  qed
  from u q f st show ?thesis unfolding unserved_def by blast
qed

theorem no_slaves_witness:
  "run [PushReset 0, PushEnqueue 0, OwnerBegin, OwnerWake, PushReset 1, PushEnqueue 1, OwnerWake]
     (ThreadPool 0 (\<lambda>_. idle)) =
     Some (the (run [PushReset 0, PushEnqueue 0, OwnerBegin, OwnerWake, PushReset 1,
                     PushEnqueue 1, OwnerWake] (ThreadPool 0 (\<lambda>_. idle))))
   \<and> slaves (the (run [PushReset 0, PushEnqueue 0, OwnerBegin, OwnerWake, PushReset 1,
                     PushEnqueue 1, OwnerWake] (ThreadPool 0 (\<lambda>_. idle)))) = []
   \<and> (\<exists>s. run [PushReset 0, PushEnqueue 0, OwnerBegin, OwnerWake, PushReset 1, PushEnqueue 1,
            OwnerWake] (ThreadPool 0 (\<lambda>_. idle)) = Some s
     \<and> mTasks s = [0, 1] \<and> owner s = Draining 1 \<and> draining s
     \<and> \<not> destroyed s \<and> pushed s 0 \<and> \<not> mRunning (heap s 0) \<and> \<not> mCompleted (heap s 0)
     \<and> step (SlaveTest 0) s = None \<and> step OwnerDelete s = None)"
proof -
  let ?ms = "[PushReset 0, PushEnqueue 0, OwnerBegin, OwnerWake, PushReset 1, PushEnqueue 1,
              OwnerWake]"
  let ?s = "the (run ?ms (ThreadPool 0 (\<lambda>_. idle)))"
  have h: "run ?ms (ThreadPool 0 (\<lambda>_. idle)) = Some ?s"
    by (simp add: pool_eval)
  note a = no_slaves_nothing_runs[OF h, THEN conjunct1]
  have b: "\<exists>s. run ?ms (ThreadPool 0 (\<lambda>_. idle)) = Some s
     \<and> mTasks s = [0, 1] \<and> owner s = Draining 1 \<and> draining s
     \<and> \<not> destroyed s \<and> pushed s 0 \<and> \<not> mRunning (heap s 0) \<and> \<not> mCompleted (heap s 0)
     \<and> step (SlaveTest 0) s = None \<and> step OwnerDelete s = None"
    by (simp add: pool_eval use_eval draining_def)
  from h a b show ?thesis by (intro conjI)
qed

end
